theory Spec2Isabelle
  imports Main "HOL-Library.Multiset"
begin

section \<open>Captcha solver: candidate selection (src/causelist/captcha.py)\<close>

text \<open>
  Both recognition tracks (\<open>solve_audio_captcha\<close>, \<open>solve_image_captcha\<close>) collect an
  ordered list \<open>all_candidates\<close> of digit strings and then run the same selection code.
  The recognisers themselves (speech API, OCR) are outside the repository; the model
  starts at the list they produced.

  \<open>collections.Counter\<close> of the standard library is a dictionary in insertion order:
  counting a list inserts a key at its first occurrence and increments it afterwards.
\<close>

fun counter_incr :: "'a \<Rightarrow> ('a \<times> nat) list \<Rightarrow> ('a \<times> nat) list" where
  "counter_incr c [] = [(c, 1)]"
| "counter_incr c ((k, n) # kvs) =
     (if k = c then (k, Suc n) # kvs else (k, n) # counter_incr c kvs)"

definition Counter :: "'a list \<Rightarrow> ('a \<times> nat) list" where
  "Counter xs = foldl (\<lambda>m c. counter_incr c m) [] xs"

text \<open>
  Python's \<open>max(it, key=k)\<close> and \<open>min(it, key=k)\<close> walk the iterable once and replace
  the element kept so far only by a strictly better one, so the first of several equally
  good elements is returned.
\<close>

fun max_from :: "('a \<Rightarrow> 'k::linorder) \<Rightarrow> 'a \<Rightarrow> 'a list \<Rightarrow> 'a" where
  "max_from key best [] = best"
| "max_from key best (x # xs) = max_from key (if key best < key x then x else best) xs"

fun min_from :: "('a \<Rightarrow> 'k::linorder) \<Rightarrow> 'a \<Rightarrow> 'a list \<Rightarrow> 'a" where
  "min_from key best [] = best"
| "min_from key best (x # xs) = min_from key (if key x < key best then x else best) xs"

text \<open>
  \<open>counts.most_common(1)\<close> is \<open>heapq.nlargest(1, counts.items(), key=itemgetter(1))\<close>,
  which for \<open>n = 1\<close> is \<open>[max(items, key=itemgetter(1))]\<close>, or the empty list when
  there are no items.
\<close>

definition most_common_1 :: "('a \<times> nat) list \<Rightarrow> ('a \<times> nat) list" where
  "most_common_1 items = (case items of [] \<Rightarrow> [] | kv # kvs \<Rightarrow> [max_from snd kv kvs])"

text \<open>
  The selection at the end of \<open>solve_audio_captcha\<close> (lines 172-187). The whole body
  runs under \<open>try ... except Exception: return None\<close>, so an \<open>IndexError\<close> of
  \<open>most_common(1)[0]\<close> would be the result \<open>None\<close>.
\<close>

definition solve_audio_select :: "string list \<Rightarrow> string option" where
  "solve_audio_select all_candidates =
     (let six_digit = filter (\<lambda>c. length c = 6) all_candidates in
      if six_digit \<noteq> [] then
        (case most_common_1 (Counter six_digit) of
           [] \<Rightarrow> None
         | (best, _) # _ \<Rightarrow> Some best)
      else
        (case all_candidates of
           [] \<Rightarrow> None
         | c # cs \<Rightarrow> Some (min_from (\<lambda>c. \<bar>int (length c) - 6\<bar>) c cs)))"

text \<open>The selection at the end of \<open>solve_image_captcha\<close> (lines 253-267).\<close>

definition solve_image_select :: "string list \<Rightarrow> string option" where
  "solve_image_select all_candidates =
     (let six_digit = filter (\<lambda>c. length c = 6) all_candidates in
      if six_digit \<noteq> [] then
        (case most_common_1 (Counter six_digit) of
           [] \<Rightarrow> None
         | (best, _) # _ \<Rightarrow> Some best)
      else
        (case all_candidates of
           [] \<Rightarrow> None
         | c # cs \<Rightarrow> Some (min_from (\<lambda>c. \<bar>int (length c) - 6\<bar>) c cs)))"

section \<open>Captcha solver: the candidates of one attempt\<close>

text \<open>
  Python's truth value of a \<open>str | None\<close>: \<open>None\<close> and the empty string are false.
\<close>

fun truthy :: "string option \<Rightarrow> bool" where
  "truthy None = False"
| "truthy (Some s) = (s \<noteq> [])"

fun len_is_6 :: "string option \<Rightarrow> bool" where
  "len_is_6 None = False"
| "len_is_6 (Some s) = (length s = 6)"

text \<open>
  \<open>if r and len(r) == 6: candidates.append((solver, r))\<close>, as the list of what is
  appended.
\<close>

fun append_if_6 :: "string \<Rightarrow> string option \<Rightarrow> (string \<times> string) list" where
  "append_if_6 solver None = []"
| "append_if_6 solver (Some s) = (if s \<noteq> [] \<and> length s = 6 then [(solver, s)] else [])"

text \<open>
  Lines 298-312 of \<open>solve_and_verify\<close>: the list of (solver name, solution) pairs in
  the order in which they are tried.
\<close>

definition build_candidates :: "string option \<Rightarrow> string option \<Rightarrow> (string \<times> string) list" where
  "build_candidates audio_result image_result =
     (if truthy audio_result \<and> truthy image_result
         \<and> len_is_6 audio_result \<and> len_is_6 image_result
         \<and> audio_result = image_result
      then (case audio_result of None \<Rightarrow> [] | Some s \<Rightarrow> [(''audio+image'', s)])
      else append_if_6 ''audio'' audio_result @ append_if_6 ''image'' image_result)"

section \<open>The portal as an environment\<close>

text \<open>
  Every network operation and both recognisers are effects on the outside world. The
  world is a state \<open>'w\<close> threaded through the calls; an operation is a function of the
  environment record from the world to the new world and the answer. Every call of the
  \<open>requests\<close> library can raise (a failed connection, a timeout, a status refused by
  \<open>raise_for_status\<close>, a body that is no JSON, a URL that the library refuses), so every
  network operation answers with such an error or with a value.
\<close>

datatype requests_error = HTTPError | ConnectionError | Timeout | JSONDecodeError | URLRejected

datatype py_error =
  Requests requests_error | RuntimeError string | IndexError | ParserRejectedMarkup

record 'w portal =
  http_get_captcha :: "'w \<Rightarrow> 'w \<times> (requests_error + string \<times> string)"
  audio_candidates :: "'w \<Rightarrow> string \<Rightarrow> 'w \<times> string list option"
  image_candidates :: "'w \<Rightarrow> string \<Rightarrow> 'w \<times> string list option"
  http_post_verify :: "'w \<Rightarrow> string \<Rightarrow> 'w \<times> (requests_error + bool)"
  http_get_page :: "'w \<Rightarrow> 'w \<times> (requests_error + unit)"
  http_post_search :: "'w \<Rightarrow> string \<times> string \<times> string \<Rightarrow> 'w \<times> (requests_error + string)"
  http_get_document :: "'w \<Rightarrow> string \<Rightarrow> 'w \<times> (requests_error + string)"

text \<open>
  \<open>fetch_captcha\<close> answers with the pair (image, audio) of base64 strings.
  \<open>solve_audio_captcha\<close> and \<open>solve_image_captcha\<close> return \<open>None\<close> when a library
  is missing or anything raises (\<open>audio_candidates\<close> answers \<open>None\<close>), and otherwise
  select among the candidates collected. \<open>verify_captcha\<close> posts the code; when the
  post returns, the answer is whether the response body is free of the rejection markers.
\<close>

definition fetch_captcha :: "'w portal \<Rightarrow> 'w \<Rightarrow> 'w \<times> (requests_error + string \<times> string)" where
  "fetch_captcha P w = http_get_captcha P w"

definition solve_audio_captcha :: "'w portal \<Rightarrow> 'w \<Rightarrow> string \<Rightarrow> 'w \<times> string option" where
  "solve_audio_captcha P w audio_base64 =
     (case audio_candidates P w audio_base64 of
        (w', None) \<Rightarrow> (w', None)
      | (w', Some all_candidates) \<Rightarrow> (w', solve_audio_select all_candidates))"

definition solve_image_captcha :: "'w portal \<Rightarrow> 'w \<Rightarrow> string \<Rightarrow> 'w \<times> string option" where
  "solve_image_captcha P w image_base64 =
     (case image_candidates P w image_base64 of
        (w', None) \<Rightarrow> (w', None)
      | (w', Some all_candidates) \<Rightarrow> (w', solve_image_select all_candidates))"

definition verify_captcha :: "'w portal \<Rightarrow> 'w \<Rightarrow> string \<Rightarrow> 'w \<times> (requests_error + bool)" where
  "verify_captcha P w captcha_code = http_post_verify P w captcha_code"

section \<open>Captcha solver: the retry loop\<close>

text \<open>
  What a run did is returned as a log of events, in the order in which they happened:
  a challenge fetch that returned or raised, a code posted to the verify endpoint with
  the answer or with the fact that the post raised, and a sleep.
\<close>

datatype event =
  Fetched | FetchFailed | Verify string bool | VerifyRaised string | Slept

definition MAX_CAPTCHA_RETRIES :: nat where
  "MAX_CAPTCHA_RETRIES = 10"

text \<open>
  The inner loop \<open>for solver, solution in candidates\<close> (lines 328-335). An exception of
  \<open>verify_captcha\<close> is not caught and ends the loop.
\<close>

fun try_candidates ::
  "'w portal \<Rightarrow> (string \<times> string) list \<Rightarrow> 'w \<Rightarrow> 'w \<times> event list \<times> (requests_error + bool)" where
  "try_candidates P [] w = (w, [], Inr False)"
| "try_candidates P ((solver, solution) # rest) w =
     (case verify_captcha P w solution of
        (w', Inl e) \<Rightarrow> (w', [VerifyRaised solution], Inl e)
      | (w', Inr True) \<Rightarrow> (w', [Verify solution True], Inr True)
      | (w', Inr False) \<Rightarrow>
          (case try_candidates P rest w' of
             (w'', evs, res) \<Rightarrow> (w'', Verify solution False # evs, res)))"

text \<open>
  The outer loop \<open>for attempt in range(1, MAX_CAPTCHA_RETRIES + 1)\<close>, as a recursion
  over the attempt numbers still to run. An attempt without candidates continues with
  the next attempt at once; an attempt whose candidates were all rejected sleeps first.
  An exception of \<open>fetch_captcha\<close> or \<open>verify_captcha\<close> ends the run.
\<close>

fun attempts ::
  "'w portal \<Rightarrow> nat list \<Rightarrow> 'w \<Rightarrow> 'w \<times> event list \<times> (py_error + bool)" where
  "attempts P [] w = (w, [], Inr False)"
| "attempts P (attempt # later) w =
     (case fetch_captcha P w of
        (w1, Inl e) \<Rightarrow> (w1, [FetchFailed], Inl (Requests e))
      | (w1, Inr (image_b64, audio_b64)) \<Rightarrow>
          (case solve_audio_captcha P w1 audio_b64 of (w2, audio_result) \<Rightarrow>
           case solve_image_captcha P w2 image_b64 of (w3, image_result) \<Rightarrow>
           let candidates = build_candidates audio_result image_result in
           if candidates = [] then
             (case attempts P later w3 of (w', evs, r) \<Rightarrow> (w', Fetched # evs, r))
           else
             (case try_candidates P candidates w3 of
                (w4, vs, Inl e) \<Rightarrow> (w4, Fetched # vs, Inl (Requests e))
              | (w4, vs, Inr True) \<Rightarrow> (w4, Fetched # vs, Inr True)
              | (w4, vs, Inr False) \<Rightarrow>
                  (case attempts P later w4 of
                     (w', evs, r) \<Rightarrow> (w', Fetched # vs @ Slept # evs, r)))))"

definition solve_and_verify :: "'w portal \<Rightarrow> 'w \<Rightarrow> 'w \<times> event list \<times> (py_error + bool)" where
  "solve_and_verify P w = attempts P [1..<MAX_CAPTCHA_RETRIES + 1] w"

text \<open>The codes posted to the verify endpoint, in order.\<close>

fun submitted :: "event list \<Rightarrow> string list" where
  "submitted [] = []"
| "submitted (Verify c ok # evs) = c # submitted evs"
| "submitted (VerifyRaised c # evs) = c # submitted evs"
| "submitted (_ # evs) = submitted evs"

fun accepted :: "event \<Rightarrow> bool" where
  "accepted (Verify c ok) = ok"
| "accepted _ = False"

fun rejected :: "event \<Rightarrow> bool" where
  "rejected (Verify c ok) = (\<not> ok)"
| "rejected _ = False"

fun raised :: "event \<Rightarrow> bool" where
  "raised (VerifyRaised c) = True"
| "raised _ = False"

text \<open>
  A run ends on an acceptance: the accepted submission is the last event of the log, and
  nothing before it was accepted.
\<close>

definition ends_accepted :: "event list \<Rightarrow> bool" where
  "ends_accepted evs = (\<exists>pre c. evs = pre @ [Verify c True] \<and> (\<forall>e\<in>set pre. \<not> accepted e))"

text \<open>
  Every challenge fetch succeeds, and every post to the verify endpoint returns, whatever
  the state of the world.
\<close>

definition fetches_succeed :: "'w portal \<Rightarrow> bool" where
  "fetches_succeed P = (\<forall>w. \<exists>w' ch. fetch_captcha P w = (w', Inr ch))"

definition verifies_return :: "'w portal \<Rightarrow> bool" where
  "verifies_return P = (\<forall>w c. \<exists>w' b. verify_captcha P w c = (w', Inr b))"


text \<open>
  The submissions of one attempt, \<open>vs\<close>, for the candidate codes \<open>cs\<close>: the codes are
  posted in the order of the list without a gap; every post but the last was rejected;
  and the posting stops only after an acceptance, after a post that raised, or at the end
  of the list.
\<close>

definition posts_in_order :: "string list \<Rightarrow> event list \<Rightarrow> bool" where
  "posts_in_order cs vs =
     (length vs \<le> length cs
      \<and> submitted vs = take (length vs) cs
      \<and> (\<forall>e\<in>set (butlast vs). rejected e)
      \<and> (vs = [] \<longrightarrow> cs = [])
      \<and> (vs \<noteq> [] \<longrightarrow> accepted (last vs) \<or> raised (last vs)
            \<or> (rejected (last vs) \<and> length vs = length cs)))"

section \<open>Notions used to state the properties\<close>

text \<open>The distinct elements of a list in the order of their first occurrence.\<close>

fun first_occ :: "'a list \<Rightarrow> 'a list" where
  "first_occ [] = []"
| "first_occ (x # xs) = x # removeAll x (first_occ xs)"

text \<open>
  A small portal for concrete runs: the world counts the challenge fetches; both
  recognisers answer fixed candidate lists; the verify endpoint accepts the codes of a
  given list; the search endpoint answers a fixed body and every document has a fixed
  content that shows its location. In the second portal every post to the verify
  endpoint fails with a connection error.
\<close>

definition demo_portal ::
  "string list \<Rightarrow> string list \<Rightarrow> string list \<Rightarrow> string \<Rightarrow> nat portal" where
  "demo_portal heard seen good body =
     \<lparr> http_get_captcha = (\<lambda>w. (Suc w, Inr (''aW1n'', ''YXVk''))),
       audio_candidates = (\<lambda>w b. (w, Some heard)),
       image_candidates = (\<lambda>w b. (w, Some seen)),
       http_post_verify = (\<lambda>w c. (w, Inr (c \<in> set good))),
       http_get_page = (\<lambda>w. (w, Inr ())),
       http_post_search = (\<lambda>w q. (w, Inr body)),
       http_get_document = (\<lambda>w url. (w, Inr (''<html>'' @ url @ ''</html>''))) \<rparr>"

definition offline_verify_portal :: "nat portal" where
  "offline_verify_portal =
     (demo_portal [''111111''] [''222222''] [] [])
       \<lparr> http_post_verify := (\<lambda>w c. (w, Inl ConnectionError)) \<rparr>"

text \<open>The selection policy of a modality, stated on the candidate list.\<close>

definition dist6 :: "string \<Rightarrow> int" where
  "dist6 c = \<bar>int (length c) - 6\<bar>"

definition first_most_frequent_6 :: "string list \<Rightarrow> string \<Rightarrow> bool" where
  "first_most_frequent_6 cs b =
     (b \<in> set cs \<and> length b = 6
      \<and> (\<forall>c\<in>set cs. length c = 6 \<longrightarrow> count_list cs c \<le> count_list cs b)
      \<and> (\<forall>c\<in>set (takeWhile (\<lambda>c. c \<noteq> b) cs).
            length c = 6 \<longrightarrow> count_list cs c < count_list cs b))"

definition first_closest_to_6 :: "string list \<Rightarrow> string \<Rightarrow> bool" where
  "first_closest_to_6 cs b =
     (b \<in> set cs
      \<and> (\<forall>c\<in>set cs. dist6 b \<le> dist6 c)
      \<and> (\<forall>c\<in>set (takeWhile (\<lambda>c. c \<noteq> b) cs). dist6 b < dist6 c))"

definition selection_policy :: "string list \<Rightarrow> string option \<Rightarrow> bool" where
  "selection_policy cs res =
     (if \<exists>c\<in>set cs. length c = 6 then
        (case res of None \<Rightarrow> False | Some b \<Rightarrow> first_most_frequent_6 cs b)
      else if cs \<noteq> [] then
        (case res of None \<Rightarrow> False | Some b \<Rightarrow> first_closest_to_6 cs b)
      else res = None)"

section \<open>Python strings\<close>

text \<open>
  A Python \<open>str\<close> is a sequence of code points. The model covers the strings of code
  points below 256: a \<open>string\<close> is the list of these code points as 8-bit characters.
  On this range the character classes are those of Python's Unicode tables:
  \<open>str.isspace\<close> holds for the codes 9-13, 28-32, 0x85 and 0xA0; \<open>str.isdigit\<close> for
  \<open>0\<close>-\<open>9\<close> and the superscripts 0xB2, 0xB3 and 0xB9; \<open>str.lower\<close> maps \<open>A\<close>-\<open>Z\<close>
  and the letters 0xC0-0xDE other than 0xD7 to the code 32 above and leaves every other
  character as it is.
\<close>

definition isspace :: "char \<Rightarrow> bool" where
  "isspace c = (c \<in> set [CHR 0x09, CHR 0x0A, CHR 0x0B, CHR 0x0C, CHR 0x0D,
                           CHR 0x1C, CHR 0x1D, CHR 0x1E, CHR 0x1F, CHR 0x20,
                           CHR 0x85, CHR 0xA0])"

definition isdigit_char :: "char \<Rightarrow> bool" where
  "isdigit_char c = (c \<in> set (''0123456789'' @ [CHR 0xB2, CHR 0xB3, CHR 0xB9]))"

text \<open>\<open>s.isdigit()\<close>: every character is a digit and there is at least one.\<close>

definition isdigit :: "string \<Rightarrow> bool" where
  "isdigit s = (s \<noteq> [] \<and> list_all isdigit_char s)"

definition latin1_upper :: string where
  "latin1_upper =
         [CHR 0xC0, CHR 0xC1, CHR 0xC2, CHR 0xC3, CHR 0xC4, CHR 0xC5, CHR 0xC6, CHR 0xC7,
          CHR 0xC8, CHR 0xC9, CHR 0xCA, CHR 0xCB, CHR 0xCC, CHR 0xCD, CHR 0xCE, CHR 0xCF,
          CHR 0xD0, CHR 0xD1, CHR 0xD2, CHR 0xD3, CHR 0xD4, CHR 0xD5, CHR 0xD6, CHR 0xD8,
          CHR 0xD9, CHR 0xDA, CHR 0xDB, CHR 0xDC, CHR 0xDD, CHR 0xDE]"

definition latin1_lower :: string where
  "latin1_lower =
         [CHR 0xE0, CHR 0xE1, CHR 0xE2, CHR 0xE3, CHR 0xE4, CHR 0xE5, CHR 0xE6, CHR 0xE7,
          CHR 0xE8, CHR 0xE9, CHR 0xEA, CHR 0xEB, CHR 0xEC, CHR 0xED, CHR 0xEE, CHR 0xEF,
          CHR 0xF0, CHR 0xF1, CHR 0xF2, CHR 0xF3, CHR 0xF4, CHR 0xF5, CHR 0xF6, CHR 0xF8,
          CHR 0xF9, CHR 0xFA, CHR 0xFB, CHR 0xFC, CHR 0xFD, CHR 0xFE]"

definition lower_char :: "char \<Rightarrow> char" where
  "lower_char c =
     (case map_of (zip (''ABCDEFGHIJKLMNOPQRSTUVWXYZ'' @ latin1_upper)
                       (''abcdefghijklmnopqrstuvwxyz'' @ latin1_lower)) c of
        None \<Rightarrow> c
      | Some l \<Rightarrow> l)"

definition lower :: "string \<Rightarrow> string" where
  "lower s = map lower_char s"

text \<open>\<open>s.strip()\<close>, \<open>s.lstrip(chars)\<close>, \<open>s.startswith(p)\<close>, \<open>sub in s\<close>,
  \<open>sep.join(xs)\<close>.\<close>

definition strip :: "string \<Rightarrow> string" where
  "strip s = rev (dropWhile isspace (rev (dropWhile isspace s)))"

definition lstrip :: "string \<Rightarrow> string \<Rightarrow> string" where
  "lstrip chars s = dropWhile (\<lambda>c. c \<in> set chars) s"

fun startswith :: "string \<Rightarrow> string \<Rightarrow> bool" where
  "startswith s [] = True"
| "startswith [] (p # ps) = False"
| "startswith (c # cs) (p # ps) = (c = p \<and> startswith cs ps)"

fun contains :: "string \<Rightarrow> string \<Rightarrow> bool" where
  "contains sub [] = (sub = [])"
| "contains sub (c # cs) = (startswith (c # cs) sub \<or> contains sub cs)"

fun join :: "string \<Rightarrow> string list \<Rightarrow> string" where
  "join sep [] = []"
| "join sep [x] = x"
| "join sep (x # y # ys) = x @ sep @ join sep (y # ys)"

text \<open>
  \<open>s.replace(old, new)\<close> scans from the left and replaces the occurrences of \<open>old\<close>
  that do not overlap; the replaced text is not scanned again. For an empty \<open>old\<close>
  Python puts \<open>new\<close> before every character and at the end.
\<close>

function replace :: "string \<Rightarrow> string \<Rightarrow> string \<Rightarrow> string" where
  "replace old new s =
     (if old = [] then new @ concat (map (\<lambda>c. c # new) s)
      else if s = [] then []
      else if startswith s old then new @ replace old new (drop (length old) s)
      else hd s # replace old new (tl s))"
  by pat_completeness auto
termination
  by (relation "measure (\<lambda>(old, new, s). length s)") auto

declare replace.simps [simp del]

text \<open>
  \<open>xs[i]\<close> for a non-negative index raises \<open>IndexError\<close> out of range.
\<close>

definition py_index :: "'a list \<Rightarrow> nat \<Rightarrow> py_error + 'a" where
  "py_index xs i = (if i < length xs then Inr (xs ! i) else Inl IndexError)"

section \<open>Search orchestration (src/causelist/client.py)\<close>

definition BASE_URL :: string where
  "BASE_URL = ''https://hcraj.nic.in''"

text \<open>\<open>initialize_session\<close>: GET of the main page, then \<open>raise_for_status\<close>.\<close>

definition initialize_session :: "'w portal \<Rightarrow> 'w \<Rightarrow> 'w \<times> (requests_error + unit)" where
  "initialize_session P w = http_get_page P w"

text \<open>Lines 94-99: the location of the result document.\<close>

definition file_url_of :: "string \<Rightarrow> string" where
  "file_url_of response_text =
     (if startswith response_text ''http'' then response_text
      else (let path = lstrip ''/'' response_text
            in BASE_URL @ ''/cishcraj-jp/'' @ path))"

text \<open>
  \<open>session.get(file_url)\<close> followed by \<open>raise_for_status\<close>. The \<open>requests\<close> library
  sends a request only to a URL that starts, in any letter case, with \<open>http://\<close> or
  \<open>https://\<close>; for any other URL it raises (\<open>MissingSchema\<close>, \<open>InvalidSchema\<close> or
  \<open>InvalidURL\<close>) before anything is sent.
\<close>

definition has_http_scheme :: "string \<Rightarrow> bool" where
  "has_http_scheme url =
     (startswith (lower url) ''http://'' \<or> startswith (lower url) ''https://'')"

definition get_document :: "'w portal \<Rightarrow> 'w \<Rightarrow> string \<Rightarrow> 'w \<times> (requests_error + string)" where
  "get_document P w file_url =
     (if has_http_scheme file_url then http_get_document P w file_url
      else (w, Inl URLRejected))"

text \<open>
  \<open>search_causelist\<close>. The form fields sent to the search endpoint are determined by
  the three arguments; the endpoint is given the arguments themselves.
\<close>

definition search_causelist ::
  "'w portal \<Rightarrow> string \<Rightarrow> string \<Rightarrow> string \<Rightarrow> 'w \<Rightarrow> 'w \<times> (py_error + string option)" where
  "search_causelist P lawyer_name date_str cl_type w =
     (case initialize_session P w of
        (w1, Inl e) \<Rightarrow> (w1, Inl (Requests e))
      | (w1, Inr u) \<Rightarrow>
          (case solve_and_verify P w1 of
             (w2, evs, Inl e) \<Rightarrow> (w2, Inl e)
           | (w2, evs, Inr False) \<Rightarrow>
               (w2, Inl (RuntimeError ''Failed to solve captcha after maximum retries''))
           | (w2, evs, Inr True) \<Rightarrow>
               (case http_post_search P w2 (lawyer_name, date_str, cl_type) of
                  (w3, Inl e) \<Rightarrow> (w3, Inl (Requests e))
                | (w3, Inr resp_text) \<Rightarrow>
                    let response_text = strip resp_text in
                    if response_text = [] \<or> response_text \<in> set [''No Record Found'', ''NA'']
                    then (w3, Inr None)
                    else
                      (case get_document P w3 (file_url_of response_text) of
                         (w4, Inl e) \<Rightarrow> (w4, Inl (Requests e))
                       | (w4, Inr content) \<Rightarrow> (w4, Inr (Some content))))))"

text \<open>
  The document location in the words of the specification: a body that begins with a URL
  scheme (a letter, then letters, digits, \<open>+\<close>, \<open>-\<close> or \<open>.\<close>, then a colon) is an
  absolute location; any other body is a path below the portal prefix.
\<close>

definition isalpha_ascii :: "char \<Rightarrow> bool" where
  "isalpha_ascii c =
     (c \<in> set ''ABCDEFGHIJKLMNOPQRSTUVWXYZabcdefghijklmnopqrstuvwxyz'')"

definition begins_with_url_scheme :: "string \<Rightarrow> bool" where
  "begins_with_url_scheme s =
     (case s of
        [] \<Rightarrow> False
      | c # cs \<Rightarrow>
          isalpha_ascii c \<and>
          (case dropWhile (\<lambda>d. isalpha_ascii d \<or> d \<in> set ''0123456789+-.'') cs of
             [] \<Rightarrow> False
           | d # ds \<Rightarrow> d = CHR '':''))"

definition spec_document_url :: "string \<Rightarrow> string" where
  "spec_document_url body =
     (if begins_with_url_scheme body then body
      else BASE_URL @ ''/cishcraj-jp/'' @ lstrip ''/'' body)"

section \<open>The parsed document (library bs4)\<close>

text \<open>
  The HTML parser and the tree it builds belong to the library \<open>bs4\<close>; the record parser
  reaches them only through the operations below, which are parameters of the model.
  \<open>BeautifulSoup\<close> is the constructor call \<open>BeautifulSoup(html_content, "html.parser")\<close>:
  it returns the root of the tree, or raises (\<open>ParserRejectedMarkup\<close> on markup that
  \<open>html.parser\<close> refuses). \<open>find_all\<close> is \<open>tag.find_all(names)\<close>, \<open>get_text_strip\<close> is
  \<open>tag.get_text(strip=True)\<close> and \<open>children\<close> is the list \<open>tag.children\<close>. For a child of
  a cell, \<open>name_attr\<close> is \<open>getattr(child, "name", None)\<close>, \<open>has_get_text\<close> is
  \<open>hasattr(child, "get_text")\<close>, \<open>get_text\<close> is \<open>child.get_text()\<close> and \<open>str_of\<close> is
  \<open>str(child)\<close>. Which strings below a tag count as its text (comments, scripts and style
  sheets do not in the current library) is decided by the library, not by the model.
\<close>

record 'n bs4 =
  BeautifulSoup :: "string \<Rightarrow> py_error + 'n"
  find_all :: "'n \<Rightarrow> string list \<Rightarrow> 'n list"
  get_text_strip :: "'n \<Rightarrow> string"
  children :: "'n \<Rightarrow> 'n list"
  name_attr :: "'n \<Rightarrow> string option"
  has_get_text :: "'n \<Rightarrow> bool"
  get_text :: "'n \<Rightarrow> string"
  str_of :: "'n \<Rightarrow> string"

section \<open>Record parser (src/causelist/parser.py)\<close>

record CaseEntry =
  serial_no :: string
  case_type_no :: string
  title :: string
  advocates :: string
  court_no :: string
  judge_name :: string
  category :: string

text \<open>
  The loop shared by \<open>_br_to_separator\<close> and \<open>_extract_title\<close>: the children of a cell
  are cut at \<open><br>\<close> tags; each run of children gives the stripped concatenation of
  their texts, and empty runs are dropped. The text of a child is
  \<open>child.get_text() if hasattr(child, "get_text") else str(child)\<close>.
\<close>

definition child_text :: "'n bs4 \<Rightarrow> 'n \<Rightarrow> string" where
  "child_text L child = (if has_get_text L child then get_text L child else str_of L child)"

fun br_loop ::
  "'n bs4 \<Rightarrow> 'n list \<Rightarrow> string list \<Rightarrow> string list \<Rightarrow> string list \<times> string list" where
  "br_loop L [] parts current = (parts, current)"
| "br_loop L (child # rest) parts current =
     (if name_attr L child = Some ''br'' then
        (let text = strip (concat current)
         in br_loop L rest (if text \<noteq> [] then parts @ [text] else parts) [])
      else br_loop L rest parts (current @ [child_text L child]))"

definition br_parts :: "'n bs4 \<Rightarrow> 'n \<Rightarrow> string list" where
  "br_parts L cell =
     (case br_loop L (children L cell) [] [] of
        (parts, current) \<Rightarrow>
          (let text = strip (concat current)
           in if text \<noteq> [] then parts @ [text] else parts))"

definition br_to_separator :: "'n bs4 \<Rightarrow> 'n \<Rightarrow> string \<Rightarrow> string" where
  "br_to_separator L cell separator = join separator (br_parts L cell)"

definition extract_title :: "'n bs4 \<Rightarrow> 'n \<Rightarrow> py_error + string" where
  "extract_title L cell =
     (let parts = br_parts L cell in
      if length parts \<le> 1 then
        (if parts \<noteq> [] then py_index parts 0 else Inr [])
      else
        (case py_index parts 0 of
           Inl e \<Rightarrow> Inl e
         | Inr part0 \<Rightarrow> Inr (part0 @ '' Vs '' @ join '' '' (drop 1 parts))))"

text \<open>The state of the walk over the rows.\<close>

record parse_state =
  records :: "CaseEntry list"
  current_court :: string
  current_judge :: string
  current_category :: string

definition any_in :: "string list \<Rightarrow> string \<Rightarrow> bool" where
  "any_in keywords text = list_ex (\<lambda>k. contains k text) keywords"

text \<open>
  The condition of the category-header branch (line 168); \<open>cell_texts[0]\<close> is read only
  when the two tests before it hold.
\<close>

definition is_category_row :: "string list \<Rightarrow> string \<Rightarrow> py_error + bool" where
  "is_category_row cell_texts full_text =
     (if length cell_texts \<le> 2 \<and> full_text \<noteq> [] then
        (case py_index cell_texts 0 of
           Inl e \<Rightarrow> Inl e
         | Inr c0 \<Rightarrow> Inr (\<not> isdigit (take 1 c0)))
      else Inr False)"

text \<open>The advocates of a data row (lines 192-197).\<close>

definition advocates_of :: "'n bs4 \<Rightarrow> 'n list \<Rightarrow> string" where
  "advocates_of L cells =
     join '' | ''
       (filter (\<lambda>part. part \<noteq> []) (map (\<lambda>c. br_to_separator L c '', '') (drop 3 cells)))"

text \<open>Rows with at least three cells (lines 178-208).\<close>

definition data_row ::
  "'n bs4 \<Rightarrow> parse_state \<Rightarrow> 'n list \<Rightarrow> string list \<Rightarrow> string \<Rightarrow> string
     \<Rightarrow> py_error + parse_state" where
  "data_row L st cells cell_texts full_text lower_text =
     (case py_index cell_texts 0 of
        Inl e \<Rightarrow> Inl e
      | Inr sno \<Rightarrow>
          (case (if sno = [] then Inr True
                 else (case py_index sno 0 of
                         Inl e \<Rightarrow> Inl e
                       | Inr c \<Rightarrow> Inr (\<not> isdigit [c] \<and> \<not> contains ''with'' (lower sno)))) of
             Inl e \<Rightarrow> Inl e
           | Inr True \<Rightarrow>
               (if full_text \<noteq> [] \<and> \<not> any_in [''high court'', ''website'', ''='', ''---''] lower_text
                then Inr (st\<lparr>current_category := full_text\<rparr>)
                else Inr st)
           | Inr False \<Rightarrow>
               (case py_index cells 2 of
                  Inl e \<Rightarrow> Inl e
                | Inr cell2 \<Rightarrow>
                    (case extract_title L cell2 of
                       Inl e \<Rightarrow> Inl e
                     | Inr title_text \<Rightarrow>
                         (case py_index cell_texts 1 of
                            Inl e \<Rightarrow> Inl e
                          | Inr type_no \<Rightarrow>
                              Inr (st\<lparr>records := records st @
                                [\<lparr> serial_no = strip (replace ''With'' [] sno),
                                   case_type_no = type_no,
                                   title = title_text,
                                   advocates = advocates_of L cells,
                                   court_no = current_court st,
                                   judge_name = current_judge st,
                                   category = current_category st \<rparr>]\<rparr>))))))"

text \<open>The body of the loop over the rows of a table (lines 136-208).\<close>

definition parse_row :: "'n bs4 \<Rightarrow> parse_state \<Rightarrow> 'n \<Rightarrow> py_error + parse_state" where
  "parse_row L st row =
     (let cells = find_all L row [''td'', ''th''];
          cell_texts = map (get_text_strip L) cells
      in
      if cell_texts = [] then Inr st
      else
        (let full_text = strip (join '' '' cell_texts);
             lower_text = lower full_text
         in
         if full_text = [] \<or> (contains ''page'' lower_text \<and> contains ''of'' lower_text)
         then Inr st
         else if contains ''court no'' lower_text \<or> contains ''court room'' lower_text
         then Inr (st\<lparr>current_court := full_text, current_judge := [], current_category := []\<rparr>)
         else if contains (''hon'' @ [CHR 0x27] @ ''ble'') lower_text \<or> contains ''justice'' lower_text
         then Inr (st\<lparr>current_judge := join '' | '' (filter (\<lambda>t. t \<noteq> []) cell_texts)\<rparr>)
         else if any_in [''s.no'', ''sr.no'', ''case type'', ''name of advocate''] lower_text
         then Inr st
         else
           (case is_category_row cell_texts full_text of
              Inl e \<Rightarrow> Inl e
            | Inr True \<Rightarrow>
                (if contains ''high court'' lower_text \<or> contains ''website'' lower_text
                    \<or> contains ''causelist'' lower_text
                 then Inr st
                 else if contains ''webex'' lower_text \<or> contains ''cisco'' lower_text
                    \<or> contains ''note:'' lower_text
                 then Inr st
                 else Inr (st\<lparr>current_category := full_text\<rparr>))
            | Inr False \<Rightarrow>
                (if length cell_texts \<ge> 3
                 then data_row L st cells cell_texts full_text lower_text
                 else Inr st))))"

text \<open>The loops over the rows of a table and over the tables.\<close>

fun parse_rows :: "'n bs4 \<Rightarrow> parse_state \<Rightarrow> 'n list \<Rightarrow> py_error + parse_state" where
  "parse_rows L st [] = Inr st"
| "parse_rows L st (row # rows) =
     (case parse_row L st row of
        Inl e \<Rightarrow> Inl e
      | Inr st' \<Rightarrow> parse_rows L st' rows)"

fun parse_tables :: "'n bs4 \<Rightarrow> parse_state \<Rightarrow> 'n list \<Rightarrow> py_error + parse_state" where
  "parse_tables L st [] = Inr st"
| "parse_tables L st (table # tables) =
     (case parse_rows L st (find_all L table [''tr'']) of
        Inl e \<Rightarrow> Inl e
      | Inr st' \<Rightarrow> parse_tables L st' tables)"

definition initial_state :: parse_state where
  "initial_state =
     \<lparr> records = [], current_court = [], current_judge = [], current_category = [] \<rparr>"

text \<open>
  \<open>parse_to_records\<close>. The constructor call of line 126 stands in no \<open>try\<close>: what it
  raises leaves the function.
\<close>

definition parse_to_records :: "'n bs4 \<Rightarrow> string \<Rightarrow> py_error + CaseEntry list" where
  "parse_to_records L html_content =
     (case BeautifulSoup L html_content of
        Inl e \<Rightarrow> Inl e
      | Inr soup \<Rightarrow>
          (let tables = find_all L soup [''table'']
           in case parse_tables L initial_state tables of
                Inl e \<Rightarrow> Inl e
              | Inr st \<Rightarrow> Inr (records st)))"

section \<open>Grouping by court\<close>

record CourtSection =
  court_no :: string
  judge_name :: string
  categories :: "(string \<times> CaseEntry list) list"

text \<open>
  An insertion-ordered dictionary is the list of its items in insertion order with
  distinct keys. \<open>d[k]\<close> on a present key is changed in place by \<open>od_update\<close>.
\<close>

definition od_update :: "'k \<Rightarrow> ('v \<Rightarrow> 'v) \<Rightarrow> ('k \<times> 'v) list \<Rightarrow> ('k \<times> 'v) list" where
  "od_update key f d = map (\<lambda>(k, v). if k = key then (k, f v) else (k, v)) d"

definition group_key :: "CaseEntry \<Rightarrow> string" where
  "group_key entry =
     (if CaseEntry.court_no entry \<noteq> [] then CaseEntry.court_no entry else ''Unknown'')"

definition category_key :: "CaseEntry \<Rightarrow> string" where
  "category_key entry =
     (if category entry \<noteq> [] then category entry else ''General'')"

text \<open>The body of the loop of \<open>group_by_court\<close> (lines 217-228).\<close>

definition group_step ::
  "(string \<times> CourtSection) list \<Rightarrow> CaseEntry \<Rightarrow> (string \<times> CourtSection) list" where
  "group_step sections entry =
     (let key = group_key entry;
          sections1 =
            (if key \<notin> set (map fst sections)
             then sections @ [(key, \<lparr> court_no = CaseEntry.court_no entry,
                                     judge_name = CaseEntry.judge_name entry,
                                     categories = [] \<rparr>)]
             else sections);
          cat = category_key entry
      in od_update key
           (\<lambda>section.
              let cats1 =
                (if cat \<notin> set (map fst (categories section))
                 then categories section @ [(cat, [])]
                 else categories section)
              in section\<lparr>categories := od_update cat (\<lambda>entries. entries @ [entry]) cats1\<rparr>)
           sections1)"

definition group_sections :: "CaseEntry list \<Rightarrow> (string \<times> CourtSection) list" where
  "group_sections recs = foldl group_step [] recs"

definition group_by_court :: "CaseEntry list \<Rightarrow> CourtSection list" where
  "group_by_court recs = map snd (group_sections recs)"

text \<open>
  The section of a grouping key, stated on the input list: its court and judge are those
  of the first entry with the key, its categories are the category keys of the entries
  with the key in first-occurrence order, each with its entries in input order.
\<close>

definition section_of :: "CaseEntry list \<Rightarrow> string \<Rightarrow> CourtSection" where
  "section_of recs k =
     (let g = filter (\<lambda>e. group_key e = k) recs in
      \<lparr> court_no = (case g of [] \<Rightarrow> [] | e # es \<Rightarrow> CaseEntry.court_no e),
        judge_name = (case g of [] \<Rightarrow> [] | e # es \<Rightarrow> CaseEntry.judge_name e),
        categories =
          map (\<lambda>c. (c, filter (\<lambda>e. category_key e = c) g))
            (first_occ (map category_key g)) \<rparr>)"

text \<open>The grouping key of a returned section, read off its court field.\<close>

definition section_key :: "CourtSection \<Rightarrow> string" where
  "section_key s =
     (if CourtSection.court_no s \<noteq> [] then CourtSection.court_no s else ''Unknown'')"

section \<open>Notions used to state the parser's properties\<close>

text \<open>
  The title built from the line-break parts of a cell, the text of a row, the rows that
  the first four rules of the parser consume, and the entry made from the cells of a data
  row in a given state.
\<close>

definition title_of_parts :: "string list \<Rightarrow> string" where
  "title_of_parts parts =
     (case parts of
        [] \<Rightarrow> []
      | [p] \<Rightarrow> p
      | p # q # ps \<Rightarrow> p @ '' Vs '' @ join '' '' (q # ps))"

definition row_text :: "string list \<Rightarrow> string" where
  "row_text cell_texts = strip (join '' '' cell_texts)"

definition rules_1_to_4 :: "string list \<Rightarrow> bool" where
  "rules_1_to_4 cell_texts =
     (let full_text = row_text cell_texts; lower_text = lower full_text in
      cell_texts = [] \<or> full_text = []
      \<or> (contains ''page'' lower_text \<and> contains ''of'' lower_text)
      \<or> contains ''court no'' lower_text \<or> contains ''court room'' lower_text
      \<or> contains (''hon'' @ [CHR 0x27] @ ''ble'') lower_text \<or> contains ''justice'' lower_text
      \<or> any_in [''s.no'', ''sr.no'', ''case type'', ''name of advocate''] lower_text)"

definition entry_of_row :: "'n bs4 \<Rightarrow> parse_state \<Rightarrow> 'n list \<Rightarrow> CaseEntry" where
  "entry_of_row L st cells =
     \<lparr> serial_no = strip (replace ''With'' [] (get_text_strip L (cells ! 0))),
       case_type_no = get_text_strip L (cells ! 1),
       title = title_of_parts (br_parts L (cells ! 2)),
       advocates =
         join '' | ''
           (filter (\<lambda>part. part \<noteq> [])
              (map (\<lambda>c. join '', '' (br_parts L c)) (drop 3 cells))),
       court_no = current_court st,
       judge_name = current_judge st,
       category = current_category st \<rparr>"

text \<open>
  Rules 5 and 6 and the skip keywords in the words of the specification: a category header
  has at most two cells, a first cell that does not start with a digit and no boilerplate
  text; a data row has at least three cells and a first cell that starts with a digit or
  contains the continuation marker.
\<close>

definition skip_keywords :: "string list" where
  "skip_keywords =
     [''high court'', ''website'', ''='', ''---'', ''causelist'', ''webex'', ''cisco'', ''note:'']"

definition rule_5 :: "string list \<Rightarrow> bool" where
  "rule_5 cell_texts =
     (cell_texts \<noteq> [] \<and> length cell_texts \<le> 2
      \<and> \<not> isdigit (take 1 (cell_texts ! 0))
      \<and> \<not> any_in skip_keywords (lower (row_text cell_texts)))"

definition rule_6 :: "string list \<Rightarrow> bool" where
  "rule_6 cell_texts =
     (3 \<le> length cell_texts
      \<and> (isdigit (take 1 (cell_texts ! 0)) \<or> contains ''with'' (lower (cell_texts ! 0))))"

section \<open>A tree library for concrete runs\<close>

text \<open>
  Documents made of plain text pieces and tags, with the operations of the library on
  them: \<open>find_all\<close> lists the descendants of a node in document order and keeps the tags
  with one of the given names; \<open>get_text()\<close> concatenates the text pieces below a node;
  \<open>get_text(strip=True)\<close> strips each piece first and drops the empty ones; a text piece
  has no \<open>name\<close>. Every node has the method \<open>get_text\<close>, so \<open>str(child)\<close> is never
  reached; it is answered with the text as well.
\<close>

datatype node = NavigableString string | Tag string "node list"

fun descendants :: "node \<Rightarrow> node list" where
  "descendants (NavigableString s) = []"
| "descendants (Tag tag_name cs) = concat (map (\<lambda>c. c # descendants c) cs)"

fun has_name :: "string list \<Rightarrow> node \<Rightarrow> bool" where
  "has_name names (NavigableString s) = False"
| "has_name names (Tag tag_name cs) = (tag_name \<in> set names)"

definition tree_find_all :: "node \<Rightarrow> string list \<Rightarrow> node list" where
  "tree_find_all n names = filter (has_name names) (descendants n)"

fun all_strings :: "node \<Rightarrow> string list" where
  "all_strings (NavigableString s) = [s]"
| "all_strings (Tag tag_name cs) = concat (map all_strings cs)"

definition tree_get_text :: "node \<Rightarrow> string" where
  "tree_get_text n = concat (all_strings n)"

definition tree_get_text_strip :: "node \<Rightarrow> string" where
  "tree_get_text_strip n = concat (filter (\<lambda>s. s \<noteq> []) (map strip (all_strings n)))"

fun tree_children :: "node \<Rightarrow> node list" where
  "tree_children (NavigableString s) = []"
| "tree_children (Tag tag_name cs) = cs"

fun tree_name :: "node \<Rightarrow> string option" where
  "tree_name (NavigableString s) = None"
| "tree_name (Tag tag_name cs) = Some tag_name"

definition tree_bs4 :: "(string \<Rightarrow> py_error + node) \<Rightarrow> node bs4" where
  "tree_bs4 parser =
     \<lparr> BeautifulSoup = parser,
       find_all = tree_find_all,
       get_text_strip = tree_get_text_strip,
       children = tree_children,
       name_attr = tree_name,
       has_get_text = (\<lambda>n. True),
       get_text = tree_get_text,
       str_of = tree_get_text \<rparr>"

section \<open>Concrete inputs\<close>

definition text_node :: "string \<Rightarrow> node" where
  "text_node s = NavigableString s"

definition br_tag :: node where
  "br_tag = Tag ''br'' []"

definition td_cell :: "node list \<Rightarrow> node" where
  "td_cell cs = Tag ''td'' cs"

definition tr_row :: "node list \<Rightarrow> node" where
  "tr_row cs = Tag ''tr'' cs"

definition case_row :: node where
  "case_row =
     tr_row [td_cell [text_node ''With 1a''], td_cell [text_node ''CRLMP/123''],
       td_cell [text_node '' Foo '', br_tag, text_node ''Bar'', br_tag, br_tag,
                Tag ''b'' [text_node ''Baz'']],
       td_cell [text_node ''ADV A'', br_tag, text_node ''ADV B''],
       td_cell [text_node '' ''], td_cell [text_node ''ADV C'']]"

definition mk_entry :: "string \<Rightarrow> string \<Rightarrow> string \<Rightarrow> string \<Rightarrow> CaseEntry" where
  "mk_entry sno court judge cat =
     \<lparr> serial_no = sno, case_type_no = ''CW/1'', title = ''A Vs B'', advocates = ''ADV'',
       court_no = court, judge_name = judge, category = cat \<rparr>"

definition demo_records :: "CaseEntry list" where
  "demo_records =
     [mk_entry ''1'' [] ''J1'' ''ADM'', mk_entry ''2'' ''Court No : 2'' ''J2'' [],
      mk_entry ''3'' [] ''J3'' [], mk_entry ''4'' ''Court No : 2'' ''J4'' ''ADM'',
      mk_entry ''5'' [] ''J5'' ''ADM'']"

definition with_row :: node where
  "with_row =
     tr_row [td_cell [text_node ''WiWithth 3''], td_cell [text_node ''CW/10''], td_cell []]"

definition short_digit_row :: node where
  "short_digit_row = tr_row [td_cell [text_node ''2 PM'']]"

definition misc_row :: node where
  "misc_row = tr_row [td_cell [], td_cell [text_node ''ORDERS''], td_cell [text_node ''MATTERS'']]"

definition plain_row :: node where
  "plain_row =
     tr_row [td_cell [text_node '' 1 ''], td_cell [text_node ''CW/7''],
             td_cell [text_node ''Early ''], td_cell [text_node ''ADV E'']]"

text \<open>
  The answers of \<open>html.parser\<close> on the markups of the concrete runs. For the table markup
  it builds the document with the one table; the marked section \<open><![x[y]]>\<close> has an
  unknown status keyword, \<open>html.parser\<close> refuses it and the constructor raises
  \<open>ParserRejectedMarkup\<close>. No other markup is parsed in the runs below; the table answers
  it as refused.
\<close>

definition plain_markup :: string where
  "plain_markup =
     ''<table><tr><td> 1 </td><td>CW/7</td><td>Early </td><td>ADV E</td></tr></table>''"

definition marked_section_markup :: string where
  "marked_section_markup = ''<![x[y]]>''"

definition html_parser :: "string \<Rightarrow> py_error + node" where
  "html_parser markup =
     (if markup = marked_section_markup then Inl ParserRejectedMarkup
      else if markup = plain_markup then Inr (Tag ''[document]'' [Tag ''table'' [plain_row]])
      else Inl ParserRejectedMarkup)"

definition demo_bs4 :: "node bs4" where
  "demo_bs4 = tree_bs4 html_parser"

definition admission_state :: parse_state where
  "admission_state =
     \<lparr> records = [], current_court = ''Court No : 2'', current_judge = ''J'',
       current_category = ''FOR ADMISSION'' \<rparr>"

section \<open>Proofs: candidate selection\<close>

lemma set_first_occ: "set (first_occ xs) = set xs"
  by (induction xs) auto

lemma distinct_first_occ: "distinct (first_occ xs)"
  by (induction xs) (auto simp: distinct_removeAll)

lemma first_occ_snoc:
  "first_occ (xs @ [x]) = (if x \<in> set xs then first_occ xs else first_occ xs @ [x])"
  by (induction xs) (auto simp: set_first_occ)

lemma removeAll_split:
  "removeAll a L = P @ k # Q \<Longrightarrow>
   \<exists>us vs. L = us @ k # vs \<and> set us \<subseteq> insert a (set P)"
proof (induction L arbitrary: P)
  case Nil
  then show ?case by simp
next
  case (Cons y L)
  show ?case
  proof (cases "y = a")
    case True
    with Cons.prems have "removeAll a L = P @ k # Q" by simp
    from Cons.IH[OF this] obtain us vs where "L = us @ k # vs" "set us \<subseteq> insert a (set P)"
      by blast
    with True have "y # L = (y # us) @ k # vs \<and> set (y # us) \<subseteq> insert a (set P)" by auto
    then show ?thesis by blast
  next
    case False
    with Cons.prems have eq: "y # removeAll a L = P @ k # Q" by simp
    show ?thesis
    proof (cases P)
      case Nil
      with eq have "y # L = [] @ k # L \<and> set [] \<subseteq> insert a (set P)" by simp
      then show ?thesis by blast
    next
      case (Cons p P')
      with eq have py: "p = y" and "removeAll a L = P' @ k # Q" by auto
      from Cons.IH[OF this(2)] obtain us vs where
        "L = us @ k # vs" "set us \<subseteq> insert a (set P')" by blast
      with Cons py have "y # L = (y # us) @ k # vs \<and> set (y # us) \<subseteq> insert a (set P)" by auto
      then show ?thesis by blast
    qed
  qed
qed

lemma first_occ_split:
  "first_occ xs = P @ k # Q \<Longrightarrow>
   \<exists>pre post. xs = pre @ k # post \<and> k \<notin> set pre \<and> set pre \<subseteq> set P"
proof (induction xs arbitrary: P Q)
  case Nil
  then show ?case by simp
next
  case (Cons a xs)
  show ?case
  proof (cases P)
    case Nil
    with Cons.prems have "k = a" by simp
    then have "a # xs = [] @ k # xs \<and> k \<notin> set [] \<and> set [] \<subseteq> set P" by simp
    then show ?thesis by blast
  next
    case (Cons p P')
    with Cons.prems have pa: "p = a" and rm: "removeAll a (first_occ xs) = P' @ k # Q"
      by auto
    from rm have "k \<in> set (removeAll a (first_occ xs))" by simp
    then have ka: "k \<noteq> a" by auto
    from removeAll_split[OF rm] obtain us vs where
      uv: "first_occ xs = us @ k # vs" "set us \<subseteq> insert a (set P')" by blast
    from Cons.IH[OF uv(1)] obtain pre post where
      pp: "xs = pre @ k # post" "k \<notin> set pre" "set pre \<subseteq> set us" by blast
    with uv(2) ka Cons pa
    have "a # xs = (a # pre) @ k # post \<and> k \<notin> set (a # pre) \<and> set (a # pre) \<subseteq> set P"
      by auto
    then show ?thesis by blast
  qed
qed

lemma counter_incr_map:
  "distinct ks \<Longrightarrow> counter_incr x (map (\<lambda>k. (k, f k)) ks) =
     (if x \<in> set ks then map (\<lambda>k. (k, if k = x then Suc (f k) else f k)) ks
      else map (\<lambda>k. (k, f k)) ks @ [(x, 1)])"
  by (induction ks) auto

lemma Counter_snoc: "Counter (xs @ [x]) = counter_incr x (Counter xs)"
  by (simp add: Counter_def)

lemma Counter_char: "Counter xs = map (\<lambda>k. (k, count_list xs k)) (first_occ xs)"
proof (induction xs rule: rev_induct)
  case Nil
  then show ?case by (simp add: Counter_def)
next
  case (snoc x xs)
  show ?case
    by (auto simp add: Counter_snoc snoc counter_incr_map distinct_first_occ set_first_occ first_occ_snoc)
qed

lemma max_from_split_gen:
  "\<forall>c\<in>set pre0. key c < key best \<Longrightarrow> \<forall>c\<in>set mid. key c \<le> key best \<Longrightarrow>
   \<exists>pre post. pre0 @ best # mid @ xs = pre @ max_from key best xs # post
      \<and> (\<forall>c\<in>set pre. key c < key (max_from key best xs))
      \<and> (\<forall>c\<in>set post. key c \<le> key (max_from key best xs))"
proof (induction xs arbitrary: pre0 best mid)
  case Nil
  then show ?case by auto
next
  case (Cons x xs)
  show ?case
  proof (cases "key best < key x")
    case True
    have a: "\<forall>c\<in>set (pre0 @ best # mid). key c < key x" using Cons.prems True by auto
    have b: "\<forall>c\<in>set []. key c \<le> key x" by simp
    from Cons.IH[OF a b] True show ?thesis by simp
  next
    case False
    have b: "\<forall>c\<in>set (mid @ [x]). key c \<le> key best" using Cons.prems False by auto
    from Cons.IH[OF Cons.prems(1) b] False show ?thesis by simp
  qed
qed

lemma max_from_split:
  "\<exists>pre post. x # xs = pre @ max_from key x xs # post
      \<and> (\<forall>c\<in>set pre. key c < key (max_from key x xs))
      \<and> (\<forall>c\<in>set post. key c \<le> key (max_from key x xs))"
  using max_from_split_gen[of "[]" key x "[]" xs] by simp

lemma min_from_split_gen:
  "\<forall>c\<in>set pre0. key best < key c \<Longrightarrow> \<forall>c\<in>set mid. key best \<le> key c \<Longrightarrow>
   \<exists>pre post. pre0 @ best # mid @ xs = pre @ min_from key best xs # post
      \<and> (\<forall>c\<in>set pre. key (min_from key best xs) < key c)
      \<and> (\<forall>c\<in>set post. key (min_from key best xs) \<le> key c)"
proof (induction xs arbitrary: pre0 best mid)
  case Nil
  then show ?case by auto
next
  case (Cons x xs)
  show ?case
  proof (cases "key x < key best")
    case True
    have a: "\<forall>c\<in>set (pre0 @ best # mid). key x < key c" using Cons.prems True by auto
    have b: "\<forall>c\<in>set []. key x \<le> key c" by simp
    from Cons.IH[OF a b] True show ?thesis by simp
  next
    case False
    have b: "\<forall>c\<in>set (mid @ [x]). key best \<le> key c" using Cons.prems False by auto
    from Cons.IH[OF Cons.prems(1) b] False show ?thesis by simp
  qed
qed

lemma min_from_split:
  "\<exists>pre post. x # xs = pre @ min_from key x xs # post
      \<and> (\<forall>c\<in>set pre. key (min_from key x xs) < key c)
      \<and> (\<forall>c\<in>set post. key (min_from key x xs) \<le> key c)"
  using min_from_split_gen[of "[]" key x "[]" xs] by simp

lemma count_list_filter: "P c \<Longrightarrow> count_list (filter P xs) c = count_list xs c"
  by (induction xs) auto

lemma most_common_first:
  assumes "xs \<noteq> []"
  shows "\<exists>b n pre post. most_common_1 (Counter xs) = [(b, n)] \<and> xs = pre @ b # post
           \<and> b \<notin> set pre
           \<and> (\<forall>c\<in>set xs. count_list xs c \<le> count_list xs b)
           \<and> (\<forall>c\<in>set pre. count_list xs c < count_list xs b)"
proof -
  let ?f = "\<lambda>k. (k, count_list xs k)"
  have ne: "first_occ xs \<noteq> []" using assms set_first_occ[of xs] by auto
  then obtain kv kvs where items: "Counter xs = kv # kvs"
    by (cases "first_occ xs") (auto simp: Counter_char)
  obtain b n where bn: "max_from snd kv kvs = (b, n)" by (cases "max_from snd kv kvs")
  from max_from_split[of kv kvs snd] bn obtain P Q where
    pq: "kv # kvs = P @ (b, n) # Q" "\<forall>c\<in>set P. snd c < n" "\<forall>c\<in>set Q. snd c \<le> n"
    by auto
  from pq(1) items have "map ?f (first_occ xs) = P @ (b, n) # Q" by (simp add: Counter_char)
  then obtain us vs where uv: "first_occ xs = us @ vs" "P = map ?f us" "(b, n) # Q = map ?f vs"
    by (auto simp: map_eq_append_conv)
  from uv(3) obtain vs' where v: "vs = b # vs'" "n = count_list xs b" "Q = map ?f vs'"
    by (cases vs) auto
  have fo: "first_occ xs = us @ b # vs'" using uv(1) v(1) by simp
  from first_occ_split[OF fo] obtain pre post where
    pp: "xs = pre @ b # post" "b \<notin> set pre" "set pre \<subseteq> set us" by blast
  have lt: "\<forall>c\<in>set us. count_list xs c < count_list xs b"
    using pq(2) uv(2) v(2) by auto
  have le: "\<forall>c\<in>set vs'. count_list xs c \<le> count_list xs b"
    using pq(3) v(2,3) by auto
  have all: "\<forall>c\<in>set xs. count_list xs c \<le> count_list xs b"
  proof
    fix c assume "c \<in> set xs"
    then have "c \<in> set (us @ b # vs')" using fo set_first_occ[of xs] by simp
    then show "count_list xs c \<le> count_list xs b" using lt le by (auto simp: less_imp_le)
  qed
  have lt': "\<forall>c\<in>set pre. count_list xs c < count_list xs b"
    using lt pp(3) by blast
  have "most_common_1 (Counter xs) = [(b, n)]" by (simp add: most_common_1_def items bn)
  then have "most_common_1 (Counter xs) = [(b, n)] \<and> xs = pre @ b # post
           \<and> b \<notin> set pre
           \<and> (\<forall>c\<in>set xs. count_list xs c \<le> count_list xs b)
           \<and> (\<forall>c\<in>set pre. count_list xs c < count_list xs b)"
    using pp(1,2) all lt' by simp
  then show ?thesis by (intro exI)
qed

lemma takeWhile_first: "x \<notin> set xs \<Longrightarrow> takeWhile (\<lambda>y. y \<noteq> x) (xs @ x # ys) = xs"
  by (induction xs) auto

lemma first_split_unique:
  assumes "x \<notin> set xs" "x \<notin> set xs'" "xs @ x # ys = xs' @ x # ys'"
  shows "xs = xs'"
proof -
  have "takeWhile (\<lambda>y. y \<noteq> x) (xs @ x # ys) = xs" using assms(1) by (rule takeWhile_first)
  moreover have "takeWhile (\<lambda>y. y \<noteq> x) (xs' @ x # ys') = xs'"
    using assms(2) by (rule takeWhile_first)
  ultimately show ?thesis using assms(3) by simp
qed

lemma select_six:
  assumes "\<exists>c\<in>set cs. length c = 6"
  shows "\<exists>b pre post. solve_audio_select cs = Some b \<and> length b = 6 \<and> cs = pre @ b # post
           \<and> b \<notin> set pre
           \<and> (\<forall>c\<in>set cs. length c = 6 \<longrightarrow> count_list cs c \<le> count_list cs b)
           \<and> (\<forall>c\<in>set pre. length c = 6 \<longrightarrow> count_list cs c < count_list cs b)"
proof -
  let ?six = "filter (\<lambda>c. length c = 6) cs"
  have ne: "?six \<noteq> []" using assms by (auto simp: filter_empty_conv)
  from most_common_first[OF ne] obtain b n pre6 post6 where
    mc: "most_common_1 (Counter ?six) = [(b, n)]" and sp: "?six = pre6 @ b # post6"
    and nb: "b \<notin> set pre6"
    and le: "\<forall>c\<in>set ?six. count_list ?six c \<le> count_list ?six b"
    and lt: "\<forall>c\<in>set pre6. count_list ?six c < count_list ?six b" by blast
  have b6: "b \<in> set ?six" using sp by simp
  then have lb: "length b = 6" and bcs: "b \<in> set cs" by auto
  from bcs obtain pre post where cs: "cs = pre @ b # post" and bp: "b \<notin> set pre"
    by (auto dest: split_list_first)
  have eq: "filter (\<lambda>c. length c = 6) pre @ b # filter (\<lambda>c. length c = 6) post = pre6 @ b # post6"
    using sp cs lb by simp
  have nbp: "b \<notin> set (filter (\<lambda>c. length c = 6) pre)" using bp by simp
  have pre6: "filter (\<lambda>c. length c = 6) pre = pre6"
    by (rule first_split_unique[OF nbp nb eq])
  have cnt: "\<And>c::string. length c = 6 \<Longrightarrow> count_list ?six c = count_list cs c"
    using count_list_filter[where P="\<lambda>c::string. length c = 6" and xs=cs] by simp
  have A: "\<forall>c\<in>set cs. length c = 6 \<longrightarrow> count_list cs c \<le> count_list cs b"
    using le cnt lb by auto
  have B: "\<forall>c\<in>set pre. length c = 6 \<longrightarrow> count_list cs c < count_list cs b"
  proof (intro ballI impI)
    fix c assume "c \<in> set pre" "length c = 6"
    then have "c \<in> set pre6" using pre6 by auto
    with lt have "count_list ?six c < count_list ?six b" by blast
    then show "count_list cs c < count_list cs b" using cnt lb \<open>length c = 6\<close> by simp
  qed
  have "solve_audio_select cs = Some b" using ne mc by (simp add: solve_audio_select_def)
  then have "solve_audio_select cs = Some b \<and> length b = 6 \<and> cs = pre @ b # post
           \<and> b \<notin> set pre
           \<and> (\<forall>c\<in>set cs. length c = 6 \<longrightarrow> count_list cs c \<le> count_list cs b)
           \<and> (\<forall>c\<in>set pre. length c = 6 \<longrightarrow> count_list cs c < count_list cs b)"
    using lb cs bp A B by simp
  then show ?thesis by (intro exI)
qed

lemma select_fallback:
  assumes "\<forall>c\<in>set cs. length c \<noteq> 6" "cs \<noteq> []"
  shows "\<exists>b pre post. solve_audio_select cs = Some b \<and> cs = pre @ b # post
           \<and> (\<forall>c\<in>set pre. \<bar>int (length b) - 6\<bar> < \<bar>int (length c) - 6\<bar>)
           \<and> (\<forall>c\<in>set post. \<bar>int (length b) - 6\<bar> \<le> \<bar>int (length c) - 6\<bar>)"
proof -
  obtain x xs where cs: "cs = x # xs" using assms(2) by (cases cs) auto
  have e: "filter (\<lambda>c. length c = 6) cs = []" using assms(1) by (auto simp: filter_empty_conv)
  let ?key = "\<lambda>c::string. \<bar>int (length c) - 6\<bar>"
  have "solve_audio_select cs = Some (min_from ?key x xs)"
    unfolding solve_audio_select_def e by (simp add: cs)
  moreover obtain pre post where "x # xs = pre @ min_from ?key x xs # post"
      "\<forall>c\<in>set pre. ?key (min_from ?key x xs) < ?key c"
      "\<forall>c\<in>set post. ?key (min_from ?key x xs) \<le> ?key c"
    using min_from_split[of x xs ?key] by blast
  ultimately have "solve_audio_select cs = Some (min_from ?key x xs)
       \<and> cs = pre @ min_from ?key x xs # post
       \<and> (\<forall>c\<in>set pre. ?key (min_from ?key x xs) < ?key c)
       \<and> (\<forall>c\<in>set post. ?key (min_from ?key x xs) \<le> ?key c)"
    using cs by simp
  then show ?thesis by (intro exI)
qed

lemma select_empty: "solve_audio_select [] = None"
  by (simp add: solve_audio_select_def)

lemma image_select_eq: "solve_image_select cs = solve_audio_select cs"
  by (simp add: solve_image_select_def solve_audio_select_def)

section \<open>Proofs: the retry loop\<close>

lemma ends_accepted_Cons: "\<not> accepted e \<Longrightarrow> ends_accepted evs \<Longrightarrow> ends_accepted (e # evs)"
  unfolding ends_accepted_def
  by (metis append_Cons set_ConsD)

lemma ends_accepted_append:
  "\<forall>e\<in>set xs. \<not> accepted e \<Longrightarrow> ends_accepted evs \<Longrightarrow> ends_accepted (xs @ evs)"
  by (induction xs) (auto intro: ends_accepted_Cons)

lemma ends_accepted_single: "ends_accepted [Verify c True]"
  unfolding ends_accepted_def by auto

lemma ends_accepted_last:
  "\<forall>e\<in>set (butlast vs). rejected e \<Longrightarrow> vs \<noteq> [] \<Longrightarrow> accepted (last vs) \<Longrightarrow> ends_accepted vs"
proof -
  assume a: "\<forall>e\<in>set (butlast vs). rejected e" "vs \<noteq> []" "accepted (last vs)"
  from a(3) obtain c where l: "last vs = Verify c True" by (cases "last vs") auto
  have "vs = butlast vs @ [Verify c True]" using a(2) l by (metis append_butlast_last_id)
  moreover have "\<forall>e\<in>set (butlast vs). \<not> accepted e"
  proof
    fix e assume "e \<in> set (butlast vs)"
    with a(1) have "rejected e" by blast
    then show "\<not> accepted e" by (cases e) auto
  qed
  ultimately show ?thesis unfolding ends_accepted_def by blast
qed

text \<open>What the inner loop does, by cases of its result.\<close>

lemma try_candidates_True:
  "try_candidates P cands w = (w', vs, Inr True) \<Longrightarrow>
     vs \<noteq> [] \<and> accepted (last vs) \<and> (\<forall>e\<in>set (butlast vs). rejected e)
     \<and> length vs \<le> length cands \<and> submitted vs = take (length vs) (map snd cands)"
proof (induction cands arbitrary: w w' vs)
  case Nil
  then show ?case by simp
next
  case (Cons a cands)
  obtain solver solution where a: "a = (solver, solution)" by (cases a)
  obtain w1 ans where v: "verify_captcha P w solution = (w1, ans)"
    by (cases "verify_captcha P w solution")
  show ?case
  proof (cases ans)
    case (Inl e)
    with Cons.prems a v show ?thesis by simp
  next
    case (Inr ok)
    show ?thesis
    proof (cases ok)
      case True
      with Cons.prems a v Inr show ?thesis by auto
    next
      case False
      obtain w2 vs2 res2 where r: "try_candidates P cands w1 = (w2, vs2, res2)"
        by (cases "try_candidates P cands w1")
      with Cons.prems a v Inr False have e: "res2 = Inr True" "vs = Verify solution False # vs2"
        by auto
      from Cons.IH[of w1 w2 vs2] r e(1) have ih: "vs2 \<noteq> []" "accepted (last vs2)"
        "\<forall>e\<in>set (butlast vs2). rejected e" "length vs2 \<le> length cands"
        "submitted vs2 = take (length vs2) (map snd cands)" by auto
      then show ?thesis using e(2) a by auto
    qed
  qed
qed

lemma try_candidates_False:
  "try_candidates P cands w = (w', vs, Inr False) \<Longrightarrow>
     (\<forall>e\<in>set vs. rejected e) \<and> length vs = length cands \<and> submitted vs = map snd cands"
proof (induction cands arbitrary: w w' vs)
  case Nil
  then show ?case by simp
next
  case (Cons a cands)
  obtain solver solution where a: "a = (solver, solution)" by (cases a)
  obtain w1 ans where v: "verify_captcha P w solution = (w1, ans)"
    by (cases "verify_captcha P w solution")
  obtain w2 vs2 res2 where r: "try_candidates P cands w1 = (w2, vs2, res2)"
    by (cases "try_candidates P cands w1")
  from Cons.prems a v r have "ans = Inr False" "res2 = Inr False"
    "vs = Verify solution False # vs2"
    by (auto split: sum.splits bool.splits)
  with Cons.IH[of w1 w2 vs2] r a show ?case by auto
qed

lemma try_candidates_Inl:
  "try_candidates P cands w = (w', vs, Inl err) \<Longrightarrow>
     vs \<noteq> [] \<and> raised (last vs) \<and> (\<forall>e\<in>set (butlast vs). rejected e)
     \<and> length vs \<le> length cands \<and> submitted vs = take (length vs) (map snd cands)"
proof (induction cands arbitrary: w w' vs)
  case Nil
  then show ?case by simp
next
  case (Cons a cands)
  obtain solver solution where a: "a = (solver, solution)" by (cases a)
  obtain w1 ans where v: "verify_captcha P w solution = (w1, ans)"
    by (cases "verify_captcha P w solution")
  show ?case
  proof (cases ans)
    case (Inl e)
    with Cons.prems a v show ?thesis by auto
  next
    case (Inr ok)
    show ?thesis
    proof (cases ok)
      case True
      with Cons.prems a v Inr show ?thesis by auto
    next
      case False
      obtain w2 vs2 res2 where r: "try_candidates P cands w1 = (w2, vs2, res2)"
        by (cases "try_candidates P cands w1")
      with Cons.prems a v Inr False have e: "res2 = Inl err" "vs = Verify solution False # vs2"
        by auto
      from Cons.IH[of w1 w2 vs2] r e(1) have ih: "vs2 \<noteq> []" "raised (last vs2)"
        "\<forall>e\<in>set (butlast vs2). rejected e" "length vs2 \<le> length cands"
        "submitted vs2 = take (length vs2) (map snd cands)" by auto
      then show ?thesis using e(2) a by auto
    qed
  qed
qed

lemma rejected_not_accepted: "rejected e \<Longrightarrow> \<not> accepted e \<and> \<not> raised e \<and> e \<noteq> Fetched \<and> e \<noteq> FetchFailed"
  by (cases e) auto

lemma raised_not_accepted: "raised e \<Longrightarrow> \<not> accepted e \<and> e \<noteq> Fetched \<and> e \<noteq> FetchFailed"
  by (cases e) auto

lemma accepted_not_fetch: "accepted e \<Longrightarrow> e \<noteq> Fetched \<and> e \<noteq> FetchFailed"
  by (cases e) auto

lemma in_set_butlast_or_last: "e \<in> set vs \<Longrightarrow> e \<in> set (butlast vs) \<or> e = last vs"
  by (induction vs) (auto split: if_splits)

lemma try_candidates_posts:
  assumes "try_candidates P cands w = (w', vs, res)"
  shows "posts_in_order (map snd cands) vs"
proof (cases res)
  case (Inl e)
  with assms try_candidates_Inl[of P cands w w' vs e] show ?thesis
    by (auto simp: posts_in_order_def)
next
  case (Inr ok)
  show ?thesis
  proof (cases ok)
    case True
    with assms Inr try_candidates_True[of P cands w w' vs] show ?thesis
      by (auto simp: posts_in_order_def)
  next
    case False
    with assms Inr try_candidates_False[of P cands w w' vs]
    have f: "\<forall>e\<in>set vs. rejected e" "length vs = length cands" "submitted vs = map snd cands"
      by auto
    have "\<forall>e\<in>set (butlast vs). rejected e" using f(1) by (auto dest: in_set_butlastD)
    moreover have "vs \<noteq> [] \<longrightarrow> rejected (last vs)" using f(1) by auto
    ultimately show ?thesis using f by (auto simp: posts_in_order_def)
  qed
qed

lemma try_candidates_no_fetch:
  assumes "try_candidates P cands w = (w', vs, res)"
  shows "Fetched \<notin> set vs \<and> FetchFailed \<notin> set vs"
proof -
  have "e \<noteq> Fetched \<and> e \<noteq> FetchFailed" if "e \<in> set vs" for e
  proof -
    note p = try_candidates_posts[OF assms, unfolded posts_in_order_def]
    from that have ne: "vs \<noteq> []" by auto
    from in_set_butlast_or_last[OF that] show ?thesis
    proof
      assume "e \<in> set (butlast vs)"
      with p have "rejected e" by blast
      then show ?thesis by (simp add: rejected_not_accepted)
    next
      assume "e = last vs"
      with p ne have "accepted e \<or> raised e \<or> rejected e" by blast
      then show ?thesis
        by (auto simp: rejected_not_accepted raised_not_accepted accepted_not_fetch)
    qed
  qed
  then show ?thesis by blast
qed

lemma count_list_0: "x \<notin> set xs \<Longrightarrow> count_list xs x = 0"
  by (induction xs) auto

lemma count_list_append: "count_list (xs @ ys) x = count_list xs x + count_list ys x"
  by (induction xs) auto

lemma try_candidates_accept_iff:
  assumes "try_candidates P cands w = (w', vs, res)"
  shows "(res = Inr True \<longrightarrow> ends_accepted vs)
       \<and> (res \<noteq> Inr True \<longrightarrow> (\<forall>e\<in>set vs. \<not> accepted e))
       \<and> ((\<exists>e. res = Inl e) \<longleftrightarrow> (\<exists>c. VerifyRaised c \<in> set vs))"
proof (cases res)
  case (Inl err)
  with assms try_candidates_Inl[of P cands w w' vs err]
  have f: "vs \<noteq> []" "raised (last vs)" "\<forall>e\<in>set (butlast vs). rejected e" by auto
  have "\<not> accepted e" if "e \<in> set vs" for e
    using in_set_butlast_or_last[OF that] f
    by (auto simp: rejected_not_accepted raised_not_accepted)
  moreover from f(2) obtain c where "last vs = VerifyRaised c" by (cases "last vs") auto
  then have "VerifyRaised c \<in> set vs" using f(1) by (metis last_in_set)
  ultimately show ?thesis using Inl by auto
next
  case (Inr ok)
  show ?thesis
  proof (cases ok)
    case True
    with assms Inr try_candidates_True[of P cands w w' vs]
    have f: "vs \<noteq> []" "accepted (last vs)" "\<forall>e\<in>set (butlast vs). rejected e" by auto
    have "e \<noteq> VerifyRaised c" if "e \<in> set vs" for e c
    proof -
      from in_set_butlast_or_last[OF that] f have "rejected e \<or> accepted e" by auto
      then show ?thesis by (cases e) auto
    qed
    then have "\<not> (\<exists>c. VerifyRaised c \<in> set vs)" by blast
    with ends_accepted_last[OF f(3) f(1) f(2)] Inr True show ?thesis by simp
  next
    case False
    with assms Inr try_candidates_False[of P cands w w' vs]
    have f: "\<forall>e\<in>set vs. rejected e" by auto
    have "\<not> accepted e \<and> e \<noteq> VerifyRaised c" if "e \<in> set vs" for e c
      using f that by (cases e) auto
    then have "(\<forall>e\<in>set vs. \<not> accepted e) \<and> \<not> (\<exists>c. VerifyRaised c \<in> set vs)" by blast
    with Inr False show ?thesis by simp
  qed
qed

text \<open>One step of the outer loop, by cases of what the attempt did.\<close>

lemma attempts_step:
  assumes "fetch_captcha P w = (w1, Inr (image_b64, audio_b64))"
      and "solve_audio_captcha P w1 audio_b64 = (w2, a)"
      and "solve_image_captcha P w2 image_b64 = (w3, i)"
      and "try_candidates P (build_candidates a i) w3 = (w4, vs, res)"
  shows "attempts P (n # later) w =
     (case res of
        Inl e \<Rightarrow> (w4, Fetched # vs, Inl (Requests e))
      | Inr True \<Rightarrow> (w4, Fetched # vs, Inr True)
      | Inr False \<Rightarrow>
          (case attempts P later w4 of
             (w', evs, r) \<Rightarrow>
               (w', Fetched # vs @ (if build_candidates a i = [] then [] else [Slept]) @ evs, r)))"
proof (cases "build_candidates a i = []")
  case True
  with assms(4) have "w4 = w3" "vs = []" "res = Inr False" by simp_all
  with assms(1-3) True show ?thesis by (simp split: prod.splits)
next
  case False
  with assms show ?thesis
    by (simp split: prod.splits sum.splits bool.splits)
qed

lemma attempts_props:
  "attempts P as w = (w', evs, r) \<Longrightarrow>
     (r = Inr True \<longrightarrow> ends_accepted evs) \<and>
     (r \<noteq> Inr True \<longrightarrow> (\<forall>e\<in>set evs. \<not> accepted e)) \<and>
     count_list evs Fetched + count_list evs FetchFailed \<le> length as \<and>
     (r = Inr False \<longrightarrow> count_list evs Fetched = length as) \<and>
     (r = Inr True \<or> r = Inr False
        \<or> (\<exists>e. r = Inl (Requests e)
              \<and> (FetchFailed \<in> set evs \<or> (\<exists>c. VerifyRaised c \<in> set evs))))"
proof (induction as arbitrary: w w' evs r)
  case Nil
  then show ?case by auto
next
  case (Cons attempt later)
  obtain w1 f where f: "fetch_captcha P w = (w1, f)" by (cases "fetch_captcha P w")
  show ?case
  proof (cases f)
    case (Inl e)
    with Cons.prems f show ?thesis by auto
  next
    case (Inr ch)
    obtain image_b64 audio_b64 where ch: "ch = (image_b64, audio_b64)" by (cases ch)
    obtain w2 a where a: "solve_audio_captcha P w1 audio_b64 = (w2, a)"
      by (cases "solve_audio_captcha P w1 audio_b64")
    obtain w3 i where i: "solve_image_captcha P w2 image_b64 = (w3, i)"
      by (cases "solve_image_captcha P w2 image_b64")
    obtain w4 vs res where t: "try_candidates P (build_candidates a i) w3 = (w4, vs, res)"
      by (cases "try_candidates P (build_candidates a i) w3")
    note step = attempts_step[OF f[unfolded Inr ch] a i t, of attempt later]
    note nf = try_candidates_no_fetch[OF t]
    note acc = try_candidates_accept_iff[OF t]
    have c0: "count_list vs Fetched = 0" "count_list vs FetchFailed = 0"
      using nf by (simp_all add: count_list_0)
    show ?thesis
    proof (cases res)
      case (Inl e)
      with step Cons.prems have e: "evs = Fetched # vs" "r = Inl (Requests e)" by simp_all
      from acc Inl obtain c where "VerifyRaised c \<in> set vs" by blast
      with e acc Inl c0 show ?thesis by auto
    next
      case res: (Inr ok)
      show ?thesis
      proof (cases ok)
        case True
        with step Cons.prems res have e: "evs = Fetched # vs" "r = Inr True" by simp_all
        from acc res True have "ends_accepted vs" by simp
        then have "ends_accepted evs" unfolding e by (rule ends_accepted_Cons[rotated]) simp
        with e c0 show ?thesis by simp
      next
        case False
        obtain w5 evs5 r5 where rec: "attempts P later w4 = (w5, evs5, r5)"
          by (cases "attempts P later w4")
        let ?sl = "if build_candidates a i = [] then [] else [Slept]"
        from step Cons.prems res False rec
        have e: "evs = Fetched # vs @ ?sl @ evs5" "r = r5" by simp_all
        from acc res False have na: "\<forall>e\<in>set vs. \<not> accepted e" by simp
        have na2: "\<forall>e\<in>set (Fetched # vs @ ?sl). \<not> accepted e" using na by auto
        have ea: "ends_accepted evs5 \<Longrightarrow> ends_accepted evs"
          using ends_accepted_append[OF na2, of evs5] unfolding e by simp
        have cnt: "count_list evs Fetched = Suc (count_list evs5 Fetched)"
          "count_list evs FetchFailed = count_list evs5 FetchFailed"
          unfolding e using c0 by (simp_all add: count_list_append)
        have mem: "x \<in> set evs5 \<Longrightarrow> x \<in> set evs" for x unfolding e by simp
        have nacc: "(\<forall>e\<in>set evs5. \<not> accepted e) \<Longrightarrow> (\<forall>e\<in>set evs. \<not> accepted e)"
          unfolding e using na by auto
        from Cons.IH[OF rec] e(2) ea cnt mem nacc show ?thesis
          by (auto simp del: count_list.simps)
      qed
    qed
  qed
qed

lemma try_candidates_returns:
  "verifies_return P \<Longrightarrow> \<exists>w' vs b. try_candidates P cands w = (w', vs, Inr b)"
proof (induction cands arbitrary: w)
  case Nil
  have "try_candidates P [] w = (w, [], Inr False)" by simp
  then show ?case by blast
next
  case (Cons a cands)
  obtain solver solution where a: "a = (solver, solution)" by (cases a)
  from Cons.prems obtain w1 b where v: "verify_captcha P w solution = (w1, Inr b)"
    unfolding verifies_return_def by blast
  from Cons.IH[OF Cons.prems, of w1] obtain w2 vs2 b2
    where r: "try_candidates P cands w1 = (w2, vs2, Inr b2)" by blast
  show ?case using a v r by (cases b) auto
qed

lemma attempts_no_failure:
  "fetches_succeed P \<Longrightarrow> verifies_return P \<Longrightarrow> attempts P as w = (w', evs, r)
     \<Longrightarrow> r = Inr True \<or> r = Inr False"
proof (induction as arbitrary: w w' evs r)
  case Nil
  then show ?case by simp
next
  case (Cons attempt later)
  from Cons.prems(1) obtain w1 ch where f: "fetch_captcha P w = (w1, Inr ch)"
    unfolding fetches_succeed_def by blast
  obtain image_b64 audio_b64 where ch: "ch = (image_b64, audio_b64)" by (cases ch)
  obtain w2 a where a: "solve_audio_captcha P w1 audio_b64 = (w2, a)"
    by (cases "solve_audio_captcha P w1 audio_b64")
  obtain w3 i where i: "solve_image_captcha P w2 image_b64 = (w3, i)"
    by (cases "solve_image_captcha P w2 image_b64")
  from try_candidates_returns[OF Cons.prems(2), of "build_candidates a i" w3]
  obtain w4 vs b where t: "try_candidates P (build_candidates a i) w3 = (w4, vs, Inr b)"
    by blast
  note step = attempts_step[OF f[unfolded ch] a i t, of attempt later]
  show ?case
  proof (cases b)
    case True
    with step Cons.prems(3) show ?thesis by simp
  next
    case False
    obtain w5 evs5 r5 where rec: "attempts P later w4 = (w5, evs5, r5)"
      by (cases "attempts P later w4")
    with step Cons.prems(3) False have "r = r5" by simp
    with Cons.IH[OF Cons.prems(1) Cons.prems(2) rec] show ?thesis by simp
  qed
qed

section \<open>Properties of the captcha solver\<close>





lemma submitted_append: "submitted (xs @ ys) = submitted xs @ submitted ys"
  by (induction xs rule: submitted.induct) auto

lemma upt_11: "[1..<MAX_CAPTCHA_RETRIES + 1] = [1, 2, 3, 4, 5, 6, 7, 8, 9, 10]"
  by (simp add: MAX_CAPTCHA_RETRIES_def upt_rec)





lemma audio_select_policy: "selection_policy cs (solve_audio_select cs)"
proof (cases "\<exists>c\<in>set cs. length c = 6")
  case True
  from select_six[OF True] obtain b pre post where
    h: "solve_audio_select cs = Some b" "length b = 6" "cs = pre @ b # post" "b \<notin> set pre"
       "\<forall>c\<in>set cs. length c = 6 \<longrightarrow> count_list cs c \<le> count_list cs b"
       "\<forall>c\<in>set pre. length c = 6 \<longrightarrow> count_list cs c < count_list cs b"
    by blast
  have tw: "takeWhile (\<lambda>c. c \<noteq> b) cs = pre" unfolding h(3) using h(4) by (rule takeWhile_first)
  have "b \<in> set cs" using h(3) by simp
  then have "first_most_frequent_6 cs b"
    unfolding first_most_frequent_6_def tw using h(2,5,6) by blast
  then show ?thesis using True h(1) by (simp add: selection_policy_def)
next
  case False
  show ?thesis
  proof (cases "cs = []")
    case True
    then show ?thesis by (simp add: selection_policy_def select_empty)
  next
    case ne: False
    from False have "\<forall>c\<in>set cs. length c \<noteq> 6" by blast
    from select_fallback[OF this ne] obtain b pre post where
      h: "solve_audio_select cs = Some b" "cs = pre @ b # post"
         "\<forall>c\<in>set pre. dist6 b < dist6 c" "\<forall>c\<in>set post. dist6 b \<le> dist6 c"
      unfolding dist6_def by blast
    have "b \<notin> set pre" using h(3) by auto
    then have tw: "takeWhile (\<lambda>c. c \<noteq> b) cs = pre" unfolding h(2) by (rule takeWhile_first)
    have "\<forall>c\<in>set cs. dist6 b \<le> dist6 c"
    proof
      fix c assume "c \<in> set cs"
      then have "c \<in> set pre \<or> c = b \<or> c \<in> set post" using h(2) by auto
      then show "dist6 b \<le> dist6 c" using h(3,4) by (auto simp: less_imp_le)
    qed
    moreover have "b \<in> set cs" using h(2) by simp
    ultimately have "first_closest_to_6 cs b"
      unfolding first_closest_to_6_def tw using h(3) by blast
    then show ?thesis using False ne h(1) by (simp add: selection_policy_def)
  qed
qed

text \<open>
  C2. For the candidate list of either modality: when some candidate has length 6 the
  result is the most frequent length-6 candidate, the first seen among equally frequent
  ones; when the list is non-empty without a length-6 candidate the result minimises
  \<open>|length - 6|\<close>, the first seen among equally close ones; on the empty list the result
  is \<open>None\<close>.
\<close>
theorem modality_selection_policy:
  "selection_policy cs (solve_audio_select cs) \<and> selection_policy cs (solve_image_select cs)"
  by (simp add: image_select_eq audio_select_policy)

theorem modality_selection_policy_witness:
  "solve_audio_select [''12345'', ''654321'', ''123456'', ''1234567'', ''123456'', ''654321'']
     = Some ''654321''
   \<and> first_most_frequent_6
        [''12345'', ''654321'', ''123456'', ''1234567'', ''123456'', ''654321''] ''654321''
   \<and> solve_image_select [''1234567'', ''12345'', ''123''] = Some ''1234567''
   \<and> first_closest_to_6 [''1234567'', ''12345'', ''123''] ''1234567''
   \<and> solve_image_select [] = None"
proof -
  have a: "solve_audio_select [''12345'', ''654321'', ''123456'', ''1234567'', ''123456'', ''654321'']
     = Some ''654321''"
    by (simp add: solve_audio_select_def Counter_def most_common_1_def)
  have b: "solve_image_select [''1234567'', ''12345'', ''123''] = Some ''1234567''"
    by (simp add: solve_image_select_def)
  have c: "solve_image_select [] = None"
    by (simp add: solve_image_select_def)
  from modality_selection_policy
    [of "[''12345'', ''654321'', ''123456'', ''1234567'', ''123456'', ''654321'']"]
    modality_selection_policy[of "[''1234567'', ''12345'', ''123'']"]
  show ?thesis unfolding a b c by (simp add: selection_policy_def)
qed

lemma demo_fetches_succeed: "fetches_succeed (demo_portal heard seen good body)"
  by (simp add: fetches_succeed_def fetch_captcha_def demo_portal_def)

lemma demo_verifies_return: "verifies_return (demo_portal heard seen good body)"
  by (simp add: verifies_return_def verify_captcha_def demo_portal_def)

lemma demo_attempt_rejected:
  "attempts (demo_portal [''111111''] [''222222''] [] body) (n # later) w =
     (case attempts (demo_portal [''111111''] [''222222''] [] body) later (Suc w) of
        (w', evs, r) \<Rightarrow>
          (w', Fetched # [Verify ''111111'' False, Verify ''222222'' False] @ Slept # evs, r))"
  by (simp add: fetch_captcha_def solve_audio_captcha_def solve_image_captcha_def
      solve_audio_select_def solve_image_select_def Counter_def most_common_1_def
      build_candidates_def verify_captcha_def demo_portal_def)

text \<open>
  C3. When every challenge fetch succeeds and every post to the verify endpoint returns,
  \<open>solve_and_verify\<close> returns true or false; it returns true exactly when a submission
  was accepted, and then the accepted submission is the last event of the run (no fetch
  or submission follows it); when it returns false the number of challenge fetches equals
  \<open>MAX_CAPTCHA_RETRIES\<close> (10), and in no case does it exceed that number.
\<close>
theorem solve_and_verify_budget:
  assumes "fetches_succeed P" and "verifies_return P"
      and "solve_and_verify P w = (w', evs, r)"
  shows "(r = Inr True \<or> r = Inr False)
       \<and> (r = Inr True \<longleftrightarrow> (\<exists>e\<in>set evs. accepted e))
       \<and> (r = Inr True \<longrightarrow> ends_accepted evs)
       \<and> (r = Inr False \<longrightarrow> count_list evs Fetched = MAX_CAPTCHA_RETRIES)
       \<and> count_list evs Fetched \<le> MAX_CAPTCHA_RETRIES
       \<and> MAX_CAPTCHA_RETRIES = 10"
proof -
  from assms(3) have a: "attempts P [1..<MAX_CAPTCHA_RETRIES + 1] w = (w', evs, r)"
    by (simp add: solve_and_verify_def)
  note p = attempts_props[OF a]
  have r: "r = Inr True \<or> r = Inr False"
    by (rule attempts_no_failure[OF assms(1) assms(2) a])
  have ea: "ends_accepted evs \<Longrightarrow> \<exists>e\<in>set evs. accepted e"
    unfolding ends_accepted_def by auto
  have iff: "r = Inr True \<longleftrightarrow> (\<exists>e\<in>set evs. accepted e)" using p ea by blast
  have len: "length [1..<MAX_CAPTCHA_RETRIES + 1] = MAX_CAPTCHA_RETRIES" by simp
  have le: "count_list evs Fetched \<le> MAX_CAPTCHA_RETRIES" using p len by linarith
  have ex: "r = Inr False \<longrightarrow> count_list evs Fetched = MAX_CAPTCHA_RETRIES" using p len by simp
  show ?thesis using r iff p ex le by (simp add: MAX_CAPTCHA_RETRIES_def)
qed

theorem solve_and_verify_budget_witness:
  "fetches_succeed (demo_portal [''111111''] [''222222''] [] [])
   \<and> verifies_return (demo_portal [''111111''] [''222222''] [] [])
   \<and> snd (snd (solve_and_verify (demo_portal [''111111''] [''222222''] [] []) 0)) = Inr False
   \<and> count_list (fst (snd (solve_and_verify (demo_portal [''111111''] [''222222''] [] []) 0)))
        Fetched = 10
   \<and> fst (solve_and_verify (demo_portal [''111111''] [''222222''] [] []) 0) = 10
   \<and> solve_and_verify (demo_portal [''111111''] [''222222''] [''222222''] []) 0
       = (Suc 0, [Fetched, Verify ''111111'' False, Verify ''222222'' True], Inr True)
   \<and> ends_accepted [Fetched, Verify ''111111'' False, Verify ''222222'' True]"
proof -
  let ?P = "demo_portal [''111111''] [''222222''] [] []"
  obtain w' evs r where run: "solve_and_verify ?P 0 = (w', evs, r)"
    by (cases "solve_and_verify ?P 0")
  have r: "r = Inr False" and w: "w' = 10"
    using run[unfolded solve_and_verify_def upt_11 demo_attempt_rejected] by simp_all
  from solve_and_verify_budget[OF demo_fetches_succeed demo_verifies_return run] r
  have c: "count_list evs Fetched = 10" by simp
  let ?Q = "demo_portal [''111111''] [''222222''] [''222222''] []"
  have run2: "solve_and_verify ?Q 0
       = (Suc 0, [Fetched, Verify ''111111'' False, Verify ''222222'' True], Inr True)"
    unfolding solve_and_verify_def upt_11
    by (simp add: fetch_captcha_def solve_audio_captcha_def solve_image_captcha_def
      solve_audio_select_def solve_image_select_def Counter_def most_common_1_def
      build_candidates_def verify_captcha_def demo_portal_def)
  from solve_and_verify_budget[OF demo_fetches_succeed demo_verifies_return run2]
  have "ends_accepted [Fetched, Verify ''111111'' False, Verify ''222222'' True]" by simp
  then show ?thesis using run run2 r w c demo_fetches_succeed demo_verifies_return by simp
qed

text \<open>
  The assumption on the verify endpoint is needed. In the portal whose verify endpoint
  is unreachable every challenge fetch succeeds, no submission is accepted, and the run
  neither returns true nor returns false: the first post raises a connection error after
  one fetch, and the error leaves \<open>solve_and_verify\<close>.
\<close>
theorem verify_raises_counterexample:
  "fetches_succeed offline_verify_portal
   \<and> solve_and_verify offline_verify_portal 0
       = (Suc 0, [Fetched, VerifyRaised ''111111''], Inl (Requests ConnectionError))
   \<and> \<not> (\<exists>e\<in>set [Fetched, VerifyRaised ''111111'']. accepted e)
   \<and> count_list [Fetched, VerifyRaised ''111111''] Fetched \<noteq> MAX_CAPTCHA_RETRIES"
proof -
  have "fetches_succeed offline_verify_portal"
    by (simp add: fetches_succeed_def fetch_captcha_def offline_verify_portal_def
        demo_portal_def)
  moreover have "solve_and_verify offline_verify_portal 0
       = (Suc 0, [Fetched, VerifyRaised ''111111''], Inl (Requests ConnectionError))"
    unfolding solve_and_verify_def upt_11
    by (simp add: fetch_captcha_def solve_audio_captcha_def solve_image_captcha_def
      solve_audio_select_def solve_image_select_def Counter_def most_common_1_def
      build_candidates_def verify_captcha_def offline_verify_portal_def demo_portal_def)
  ultimately show ?thesis by (simp add: MAX_CAPTCHA_RETRIES_def)
qed

section \<open>Properties of the search orchestration\<close>

lemma startswith_append: "startswith (p @ s) p"
  by (induction p) auto

lemma startswith_iff: "startswith s p \<longleftrightarrow> (\<exists>t. s = p @ t)"
proof (induction s p rule: startswith.induct)
  case (1 s)
  then show ?case by simp
next
  case (2 p ps)
  then show ?case by simp
next
  case (3 c cs p ps)
  then show ?case by auto
qed

lemma startswith_prefix: "startswith s (p @ q) \<Longrightarrow> startswith s p"
  unfolding startswith_iff by auto

lemma startswith_lower: "startswith s p \<Longrightarrow> startswith (lower s) (lower p)"
  unfolding startswith_iff lower_def by auto

lemma lower_http: "lower ''http://'' = ''http://''" "lower ''https://'' = ''https://''"
  by (simp_all add: lower_def lower_char_def latin1_upper_def latin1_lower_def)

lemma base_url_scheme: "has_http_scheme (BASE_URL @ t)"
  by (simp add: has_http_scheme_def BASE_URL_def lower_def lower_char_def
      latin1_upper_def latin1_lower_def)

text \<open>
  C4 (as amended). After a successful session start and captcha, and when the search
  post returns, \<open>search_causelist\<close> returns \<open>None\<close> exactly when the stripped response
  body is empty, \<open>No Record Found\<close> or \<open>NA\<close>. For any other body it fetches the
  document location and returns the fetched content unchanged (or raises the error of
  that fetch); the location is the body itself when the body starts with \<open>http://\<close> or
  \<open>https://\<close>, and \<open>BASE_URL/cishcraj-jp/\<close> followed by the body without its leading
  slashes when the body does not start with \<open>http\<close>. When the captcha budget is
  exhausted the result is a \<open>RuntimeError\<close>, which is no error of the \<open>requests\<close>
  library.
\<close>
theorem search_causelist_response:
  assumes "initialize_session P w = (w1, Inr ())"
      and "solve_and_verify P w1 = (w2, evs, r)"
      and "http_post_search P w2 (lawyer_name, date_str, cl_type) = (w3, Inr body)"
  shows "(r = Inr True \<longrightarrow>
            (snd (search_causelist P lawyer_name date_str cl_type w) = Inr None
               \<longleftrightarrow> strip body = [] \<or> strip body = ''No Record Found'' \<or> strip body = ''NA'')
          \<and> (\<not> (strip body = [] \<or> strip body = ''No Record Found'' \<or> strip body = ''NA'') \<longrightarrow>
               search_causelist P lawyer_name date_str cl_type w
                 = (case get_document P w3 (file_url_of (strip body)) of
                      (w4, Inl e) \<Rightarrow> (w4, Inl (Requests e))
                    | (w4, Inr content) \<Rightarrow> (w4, Inr (Some content)))))
       \<and> (startswith (strip body) ''http://'' \<or> startswith (strip body) ''https://'' \<longrightarrow>
            file_url_of (strip body) = strip body
            \<and> get_document P w3 (file_url_of (strip body))
                = http_get_document P w3 (strip body))
       \<and> (\<not> startswith (strip body) ''http'' \<longrightarrow>
            file_url_of (strip body)
              = BASE_URL @ ''/cishcraj-jp/'' @ dropWhile (\<lambda>c. c = CHR ''/'') (strip body)
            \<and> get_document P w3 (file_url_of (strip body))
                = http_get_document P w3
                    (BASE_URL @ ''/cishcraj-jp/'' @ dropWhile (\<lambda>c. c = CHR ''/'') (strip body)))
       \<and> file_url_of ''/causelist/output/123.html''
           = BASE_URL @ ''/cishcraj-jp/causelist/output/123.html''
       \<and> (r = Inr False \<longrightarrow>
            search_causelist P lawyer_name date_str cl_type w
              = (w2, Inl (RuntimeError ''Failed to solve captcha after maximum retries''))
            \<and> (\<forall>e. snd (search_causelist P lawyer_name date_str cl_type w) \<noteq> Inl (Requests e)))"
proof -
  have A: "r = Inr True \<Longrightarrow> strip body = [] \<or> strip body = ''No Record Found'' \<or> strip body = ''NA''
      \<Longrightarrow> search_causelist P lawyer_name date_str cl_type w = (w3, Inr None)"
    using assms by (auto simp: search_causelist_def)
  have B: "r = Inr True \<Longrightarrow> \<not> (strip body = [] \<or> strip body = ''No Record Found'' \<or> strip body = ''NA'')
      \<Longrightarrow> search_causelist P lawyer_name date_str cl_type w
                 = (case get_document P w3 (file_url_of (strip body)) of
                      (w4, Inl e) \<Rightarrow> (w4, Inl (Requests e))
                    | (w4, Inr content) \<Rightarrow> (w4, Inr (Some content)))"
    using assms by (simp add: search_causelist_def)
  have B': "r = Inr True \<Longrightarrow> \<not> (strip body = [] \<or> strip body = ''No Record Found'' \<or> strip body = ''NA'')
      \<Longrightarrow> snd (search_causelist P lawyer_name date_str cl_type w) \<noteq> Inr None"
    by (simp add: B split: prod.splits sum.splits)
  have C: "r = Inr False \<Longrightarrow> search_causelist P lawyer_name date_str cl_type w
              = (w2, Inl (RuntimeError ''Failed to solve captcha after maximum retries''))"
    using assms by (simp add: search_causelist_def)
  have D1: "file_url_of s = s" if "startswith s ''http://'' \<or> startswith s ''https://''" for s
  proof -
    from that have "startswith s ''http''" by (rule disjE) (rule startswith_prefix, simp)+
    then show ?thesis by (simp add: file_url_of_def)
  qed
  have D2: "get_document P w3 s = http_get_document P w3 s"
    if "startswith s ''http://'' \<or> startswith s ''https://''" for s
    using that by (auto simp: get_document_def has_http_scheme_def dest: startswith_lower simp: lower_http)
  have D3: "file_url_of s = BASE_URL @ ''/cishcraj-jp/'' @ dropWhile (\<lambda>c. c = CHR ''/'') s"
    if "\<not> startswith s ''http''" for s
    using that by (simp add: file_url_of_def lstrip_def)
  have D4: "get_document P w3 (BASE_URL @ t) = http_get_document P w3 (BASE_URL @ t)" for t
    by (simp add: get_document_def base_url_scheme)
  have E: "file_url_of ''/causelist/output/123.html''
           = BASE_URL @ ''/cishcraj-jp/causelist/output/123.html''"
    by (simp add: file_url_of_def lstrip_def)
  have F: "r = Inr True \<Longrightarrow> (snd (search_causelist P lawyer_name date_str cl_type w) = Inr None
               \<longleftrightarrow> strip body = [] \<or> strip body = ''No Record Found'' \<or> strip body = ''NA'')"
    using A B' by fastforce
  show ?thesis
    apply (intro conjI impI)
    subgoal by (rule F)
    subgoal by (rule B)
    subgoal by (rule D1)
    subgoal premises p by (simp add: D1[OF p] D2[OF p])
    subgoal by (rule D3)
    subgoal premises p by (simp add: D3[OF p] D4)
    subgoal by (rule E)
    subgoal by (rule C)
    subgoal by (simp add: C)
    done
qed

section \<open>Properties of the grouping\<close>

lemma filter_key_absent: "k \<notin> set (map f xs) \<Longrightarrow> filter (\<lambda>x. f x = k) xs = []"
  by (induction xs) auto

lemma od_update_append: "od_update k f (xs @ ys) = od_update k f xs @ od_update k f ys"
  by (simp add: od_update_def)

lemma od_update_single: "od_update k f [(k, v)] = [(k, f v)]"
  by (simp add: od_update_def)

lemma od_update_map:
  "od_update k f (map (\<lambda>x. (x, h x)) xs) = map (\<lambda>x. (x, if x = k then f (h x) else h x)) xs"
  by (induction xs) (auto simp: od_update_def)

lemma group_sections_snoc: "group_sections (rs @ [e]) = group_step (group_sections rs) e"
  by (simp add: group_sections_def)

lemma categories_step:
  fixes g :: "CaseEntry list"
  defines "cats \<equiv> map (\<lambda>c. (c, filter (\<lambda>x. category_key x = c) g)) (first_occ (map category_key g))"
  shows "od_update (category_key e) (\<lambda>entries. entries @ [e])
           (if category_key e \<notin> set (map fst cats) then cats @ [(category_key e, [])] else cats)
         = map (\<lambda>c. (c, filter (\<lambda>x. category_key x = c) (g @ [e])))
             (first_occ (map category_key (g @ [e])))"
proof (cases "category_key e \<in> set (map category_key g)")
  case True
  then have "category_key e \<in> set (map fst cats)"
    by (simp add: cats_def set_first_occ comp_def)
  then show ?thesis using True
    by (auto simp: cats_def od_update_map first_occ_snoc set_first_occ)
next
  case False
  then have nin: "category_key e \<notin> set (map fst cats)"
    by (simp add: cats_def set_first_occ comp_def)
  have "od_update (category_key e) (\<lambda>entries. entries @ [e]) (cats @ [(category_key e, [])])
        = od_update (category_key e) (\<lambda>entries. entries @ [e]) cats @ [(category_key e, [e])]"
    by (simp add: od_update_def)
  moreover have "filter (\<lambda>x. category_key x = category_key e) g = []"
    using False by (rule filter_key_absent)
  ultimately show ?thesis using False nin
    by (auto simp: cats_def od_update_map first_occ_snoc set_first_occ)
qed

lemma section_of_other:
  "k \<noteq> group_key e \<Longrightarrow> section_of (rs @ [e]) k = section_of rs k"
  by (simp add: section_of_def)

lemma section_of_same:
  "section_of (rs @ [e]) (group_key e) =
     (let section = (if group_key e \<in> set (map group_key rs) then section_of rs (group_key e)
                     else \<lparr> court_no = CaseEntry.court_no e,
                            judge_name = CaseEntry.judge_name e, categories = [] \<rparr>);
          cats1 = (if category_key e \<notin> set (map fst (categories section))
                   then categories section @ [(category_key e, [])]
                   else categories section)
      in section\<lparr>categories := od_update (category_key e) (\<lambda>entries. entries @ [e]) cats1\<rparr>)"
proof (cases "group_key e \<in> set (map group_key rs)")
  case True
  let ?g = "filter (\<lambda>x. group_key x = group_key e) rs"
  from True have ne: "?g \<noteq> []" by (auto simp: filter_empty_conv)
  then obtain x xs where g: "?g = x # xs" by (cases ?g) auto
  have hd: "(case ?g @ [e] of [] \<Rightarrow> [] | a # as \<Rightarrow> CaseEntry.court_no a)
            = (case ?g of [] \<Rightarrow> [] | a # as \<Rightarrow> CaseEntry.court_no a)"
    "(case ?g @ [e] of [] \<Rightarrow> [] | a # as \<Rightarrow> CaseEntry.judge_name a)
            = (case ?g of [] \<Rightarrow> [] | a # as \<Rightarrow> CaseEntry.judge_name a)"
    by (simp_all add: g)
  show ?thesis using True categories_step[of e ?g, symmetric]
    by (simp add: section_of_def Let_def hd del: set_map map_map)
next
  case False
  then have e: "filter (\<lambda>x. group_key x = group_key e) rs = []"
    by (rule filter_key_absent)
  show ?thesis using False
    by (simp add: section_of_def e od_update_def)
qed

lemma group_sections_char:
  "group_sections rs = map (\<lambda>k. (k, section_of rs k)) (first_occ (map group_key rs))"
proof (induction rs rule: rev_induct)
  case Nil
  then show ?case by (simp add: group_sections_def)
next
  case (snoc e rs)
  let ?K = "first_occ (map group_key rs)"
  have keys: "set (map fst (map (\<lambda>k. (k, section_of rs k)) ?K)) = set (map group_key rs)"
    by (simp add: set_first_occ comp_def)
  show ?case
  proof (cases "group_key e \<in> set (map group_key rs)")
    case True
    have "group_step (map (\<lambda>k. (k, section_of rs k)) ?K) e
          = map (\<lambda>k. (k, section_of (rs @ [e]) k)) ?K"
      unfolding group_step_def Let_def keys using True
      by (simp add: od_update_map section_of_same[of rs e, unfolded Let_def] section_of_other
            del: set_map map_map cong: map_cong)
    then show ?thesis using True
      by (simp add: group_sections_snoc snoc first_occ_snoc del: set_map)
  next
    case False
    have "group_step (map (\<lambda>k. (k, section_of rs k)) ?K) e
          = map (\<lambda>k. (k, section_of (rs @ [e]) k)) (?K @ [group_key e])"
    proof -
      have ne: "\<forall>x\<in>set ?K. x \<noteq> group_key e" using False set_first_occ[of "map group_key rs"] by blast
      have old: "od_update (group_key e)
              (\<lambda>section. section\<lparr>categories := od_update (category_key e) (\<lambda>entries. entries @ [e])
                 (if category_key e \<notin> set (map fst (categories section))
                  then categories section @ [(category_key e, [])] else categories section)\<rparr>)
              (map (\<lambda>k. (k, section_of rs k)) ?K)
            = map (\<lambda>k. (k, section_of (rs @ [e]) k)) ?K"
        unfolding od_update_map using ne by (simp add: section_of_other)
      show ?thesis
        unfolding group_step_def Let_def keys using False
        by (simp add: od_update_append od_update_single old
              section_of_same[of rs e, unfolded Let_def] del: set_map map_map)
    qed
    then show ?thesis using False
      by (simp add: group_sections_snoc snoc first_occ_snoc del: set_map)
  qed
qed

lemma group_by_court_char:
  "group_by_court rs = map (section_of rs) (first_occ (map group_key rs))"
  by (simp add: group_by_court_def group_sections_char comp_def)

lemma find_filter: "find P xs = (case filter P xs of [] \<Rightarrow> None | x # ys \<Rightarrow> Some x)"
  by (induction xs) auto

lemma section_of_first:
  assumes "k \<in> set (map group_key rs)"
  shows "\<exists>e. find (\<lambda>e. group_key e = k) rs = Some e \<and> group_key e = k
           \<and> CourtSection.court_no (section_of rs k) = CaseEntry.court_no e
           \<and> CourtSection.judge_name (section_of rs k) = CaseEntry.judge_name e"
proof -
  let ?g = "filter (\<lambda>e. group_key e = k) rs"
  from assms have "?g \<noteq> []" by (auto simp: filter_empty_conv)
  then obtain e es where g: "?g = e # es" by (cases ?g) auto
  then have "e \<in> set ?g" by simp
  then have "group_key e = k" by simp
  then show ?thesis using g by (simp add: find_filter section_of_def)
qed

lemma section_key_section_of:
  assumes "k \<in> set (map group_key rs)"
  shows "section_key (section_of rs k) = k"
proof -
  from section_of_first[OF assms] obtain e where
    "group_key e = k" "CourtSection.court_no (section_of rs k) = CaseEntry.court_no e" by blast
  then show ?thesis by (auto simp: section_key_def group_key_def)
qed

lemma section_keys: "map section_key (group_by_court rs) = first_occ (map group_key rs)"
proof -
  have "\<forall>k\<in>set (first_occ (map group_key rs)). section_key (section_of rs k) = k"
    using section_key_section_of[of _ rs] set_first_occ[of "map group_key rs"] by blast
  then show ?thesis
    unfolding group_by_court_char by (simp add: map_idI)
qed

lemma section_in_group:
  assumes "s \<in> set (group_by_court rs)"
  shows "section_key s \<in> set (map group_key rs) \<and> s = section_of rs (section_key s)"
proof -
  from assms obtain k where k: "k \<in> set (first_occ (map group_key rs))" "s = section_of rs k"
    unfolding group_by_court_char by auto
  then have "k \<in> set (map group_key rs)" using set_first_occ[of "map group_key rs"] by blast
  with k section_key_section_of[of k rs] show ?thesis by simp
qed

lemma section_categories:
  assumes "s \<in> set (group_by_court rs)"
  shows "map fst (categories s)
           = first_occ (map category_key (filter (\<lambda>e. group_key e = section_key s) rs))"
    and "\<forall>(c, es)\<in>set (categories s).
           es = filter (\<lambda>e. group_key e = section_key s \<and> category_key e = c) rs"
proof -
  from section_in_group[OF assms] have s: "s = section_of rs (section_key s)" by blast
  have c: "categories (section_of rs k)
        = map (\<lambda>c. (c, filter (\<lambda>e. group_key e = k \<and> category_key e = c) rs))
            (first_occ (map category_key (filter (\<lambda>e. group_key e = k) rs)))" for k
    by (simp add: section_of_def Let_def conj_commute)
  show "map fst (categories s)
           = first_occ (map category_key (filter (\<lambda>e. group_key e = section_key s) rs))"
    by (subst s, subst c) (simp add: comp_def)
  show "\<forall>(c, es)\<in>set (categories s).
           es = filter (\<lambda>e. group_key e = section_key s \<and> category_key e = c) rs"
    by (subst s, subst c) auto
qed

lemma entry_lands:
  assumes "e \<in> set rs"
  shows "\<exists>s\<in>set (group_by_court rs). \<exists>es. section_key s = group_key e
           \<and> (category_key e, es) \<in> set (categories s) \<and> e \<in> set es"
proof -
  let ?k = "group_key e"
  let ?g = "filter (\<lambda>x. group_key x = ?k) rs"
  let ?es = "filter (\<lambda>x. category_key x = category_key e) ?g"
  have k: "?k \<in> set (map group_key rs)" using assms by simp
  then have "?k \<in> set (first_occ (map group_key rs))"
    using set_first_occ[of "map group_key rs"] by blast
  then have in_g: "section_of rs ?k \<in> set (group_by_court rs)"
    unfolding group_by_court_char by simp
  have eg: "e \<in> set ?g" using assms by simp
  then have "category_key e \<in> set (first_occ (map category_key ?g))"
    unfolding set_first_occ by (simp del: set_filter)
  then have "(category_key e, ?es) \<in> set (categories (section_of rs ?k))"
    by (simp add: section_of_def Let_def image_iff del: set_filter)
  moreover have "e \<in> set ?es" using eg by simp
  ultimately show ?thesis using in_g section_key_section_of[OF k] by blast
qed

text \<open>
  C6. \<open>group_by_court\<close> returns one section per distinct grouping key, in the order of
  the keys' first occurrences in the input; the category names of a section are the
  category keys of its entries in first-occurrence order and are distinct; the entry list
  of a category is the input list restricted to the entries with the section's key and
  that category, in input order; and every input entry is in the list of its category in
  the section of its key.
\<close>
theorem group_by_court_stable:
  "map section_key (group_by_court rs) = first_occ (map group_key rs)
   \<and> distinct (map section_key (group_by_court rs))
   \<and> (\<forall>s\<in>set (group_by_court rs).
         map fst (categories s)
           = first_occ (map category_key (filter (\<lambda>e. group_key e = section_key s) rs))
         \<and> distinct (map fst (categories s))
         \<and> (\<forall>(c, es)\<in>set (categories s).
               es = filter (\<lambda>e. group_key e = section_key s \<and> category_key e = c) rs))
   \<and> (\<forall>e\<in>set rs. \<exists>s\<in>set (group_by_court rs). \<exists>es. section_key s = group_key e
           \<and> (category_key e, es) \<in> set (categories s) \<and> e \<in> set es)"
proof -
  have "\<forall>s\<in>set (group_by_court rs). distinct (map fst (categories s))"
    using section_categories(1) distinct_first_occ by metis
  then show ?thesis
    using section_keys[of rs] distinct_first_occ[of "map group_key rs"]
      section_categories entry_lands by auto
qed

text \<open>
  C10. In every section returned by \<open>group_by_court\<close> the fields \<open>court_no\<close> and
  \<open>judge_name\<close> are those of the first input entry with the section's grouping key.
\<close>
theorem section_header_from_first_entry:
  "\<forall>s\<in>set (group_by_court rs).
     (case find (\<lambda>e. group_key e = section_key s) rs of
        None \<Rightarrow> False
      | Some e \<Rightarrow> CourtSection.court_no s = CaseEntry.court_no e
                 \<and> CourtSection.judge_name s = CaseEntry.judge_name e)"
proof
  fix s assume "s \<in> set (group_by_court rs)"
  from section_in_group[OF this] have k: "section_key s \<in> set (map group_key rs)"
    and s: "s = section_of rs (section_key s)" by blast+
  from section_of_first[OF k] s
  show "case find (\<lambda>e. group_key e = section_key s) rs of
        None \<Rightarrow> False
      | Some e \<Rightarrow> CourtSection.court_no s = CaseEntry.court_no e
                 \<and> CourtSection.judge_name s = CaseEntry.judge_name e"
    by auto
qed

section \<open>Concrete runs of the search and the grouping\<close>

lemma demo_groups:
  "group_by_court demo_records =
     [\<lparr> court_no = [], judge_name = ''J1'',
        categories = [(''ADM'', [mk_entry ''1'' [] ''J1'' ''ADM'', mk_entry ''5'' [] ''J5'' ''ADM'']),
                      (''General'', [mk_entry ''3'' [] ''J3'' []])] \<rparr>,
      \<lparr> court_no = ''Court No : 2'', judge_name = ''J2'',
        categories = [(''General'', [mk_entry ''2'' ''Court No : 2'' ''J2'' []]),
                      (''ADM'', [mk_entry ''4'' ''Court No : 2'' ''J4'' ''ADM''])] \<rparr>]"
  by (simp add: group_by_court_def group_sections_def group_step_def od_update_def
      demo_records_def mk_entry_def group_key_def category_key_def Let_def)

theorem group_by_court_stable_witness:
  "map section_key (group_by_court demo_records) = [''Unknown'', ''Court No : 2'']
   \<and> map (\<lambda>s. map fst (categories s)) (group_by_court demo_records)
       = [[''ADM'', ''General''], [''General'', ''ADM'']]
   \<and> first_occ (map group_key demo_records) = [''Unknown'', ''Court No : 2'']"
proof -
  have "map section_key (group_by_court demo_records) = [''Unknown'', ''Court No : 2'']"
    by (simp add: demo_groups section_key_def)
  with group_by_court_stable[of demo_records] show ?thesis
    by (simp add: demo_groups)
qed

theorem section_header_from_first_entry_witness:
  "find (\<lambda>e. group_key e = ''Unknown'') demo_records = Some (mk_entry ''1'' [] ''J1'' ''ADM'')
   \<and> map (\<lambda>s. (CourtSection.court_no s, CourtSection.judge_name s)) (group_by_court demo_records)
       = [([], ''J1''), (''Court No : 2'', ''J2'')]"
proof -
  have "find (\<lambda>e. group_key e = ''Unknown'') demo_records = Some (mk_entry ''1'' [] ''J1'' ''ADM'')"
    by (simp add: demo_records_def mk_entry_def group_key_def)
  with section_header_from_first_entry[of demo_records] show ?thesis
    by (simp add: demo_groups)
qed

lemma demo_init: "initialize_session (demo_portal heard seen good body) w = (w, Inr ())"
  by (simp add: initialize_session_def demo_portal_def)

lemma demo_post: "http_post_search (demo_portal heard seen good body) w q = (w, Inr body)"
  by (simp add: demo_portal_def)

lemma demo_get:
  "http_get_document (demo_portal heard seen good body) w url
     = (w, Inr (''<html>'' @ url @ ''</html>''))"
  by (simp add: demo_portal_def)

lemma demo_solve_ok:
  "solve_and_verify (demo_portal [''222222''] [''222222''] [''222222''] body) 0
     = (Suc 0, [Fetched, Verify ''222222'' True], Inr True)"
  unfolding solve_and_verify_def upt_11
  by (simp add: fetch_captcha_def solve_audio_captcha_def solve_image_captcha_def
      solve_audio_select_def solve_image_select_def Counter_def most_common_1_def
      build_candidates_def verify_captcha_def demo_portal_def)

lemma demo_solve_exhausted:
  "\<exists>evs. solve_and_verify (demo_portal [''111111''] [''222222''] [] body) 0 = (10, evs, Inr False)"
  unfolding solve_and_verify_def upt_11 demo_attempt_rejected by simp

text \<open>
  C4 as stated fails: the body \<open>ftp://files.example/list.html\<close> begins with a URL
  scheme, and the document is fetched not from the body itself but from the location
  below the portal prefix.
\<close>

theorem document_location_counterexample:
  "begins_with_url_scheme ''ftp://files.example/list.html''
   \<and> file_url_of ''ftp://files.example/list.html''
       = ''https://hcraj.nic.in/cishcraj-jp/ftp://files.example/list.html''
   \<and> spec_document_url ''ftp://files.example/list.html'' = ''ftp://files.example/list.html''
   \<and> search_causelist
         (demo_portal [''222222''] [''222222''] [''222222''] ''ftp://files.example/list.html'')
         ''ABC'' ''01/01/2026'' ''D'' 0
       = (Suc 0,
          Inr (Some ''<html>https://hcraj.nic.in/cishcraj-jp/ftp://files.example/list.html</html>''))"
proof -
  let ?P = "demo_portal [''222222''] [''222222''] [''222222''] ''ftp://files.example/list.html''"
  note sv = demo_solve_ok[of "''ftp://files.example/list.html''"]
  have st: "strip ''ftp://files.example/list.html'' = ''ftp://files.example/list.html''"
    by (simp add: strip_def isspace_def)
  have fu: "file_url_of ''ftp://files.example/list.html''
       = BASE_URL @ ''/cishcraj-jp/ftp://files.example/list.html''"
    by (simp add: file_url_of_def lstrip_def)
  have run: "search_causelist ?P ''ABC'' ''01/01/2026'' ''D'' 0
       = (Suc 0,
          Inr (Some ''<html>https://hcraj.nic.in/cishcraj-jp/ftp://files.example/list.html</html>''))"
    by (simp add: search_causelist_def demo_init sv demo_post st)
       (simp add: fu get_document_def base_url_scheme demo_get, simp add: BASE_URL_def)
  show ?thesis
    by (simp add: run)
       (simp add: begins_with_url_scheme_def isalpha_ascii_def
         file_url_of_def spec_document_url_def lstrip_def BASE_URL_def)
qed

theorem search_causelist_response_witness:
  "search_causelist
       (demo_portal [''222222''] [''222222''] [''222222''] ''/causelist/output/123.html
'')
       ''ABC'' ''01/01/2026'' ''D'' 0
     = (Suc 0, Inr (Some ''<html>https://hcraj.nic.in/cishcraj-jp/causelist/output/123.html</html>''))
   \<and> search_causelist
       (demo_portal [''222222''] [''222222''] [''222222''] ''https://hcraj.nic.in/x.html'')
       ''ABC'' ''01/01/2026'' ''D'' 0
     = (Suc 0, Inr (Some ''<html>https://hcraj.nic.in/x.html</html>''))
   \<and> snd (search_causelist (demo_portal [''222222''] [''222222''] [''222222''] '' NA '')
             ''ABC'' ''01/01/2026'' ''D'' 0) = Inr None
   \<and> search_causelist (demo_portal [''111111''] [''222222''] [] ''NA'')
             ''ABC'' ''01/01/2026'' ''D'' 0
       = (10, Inl (RuntimeError ''Failed to solve captcha after maximum retries''))"
proof -
  have s1: "strip ''/causelist/output/123.html
'' = ''/causelist/output/123.html''"
    by (simp add: strip_def isspace_def)
  have s2: "strip '' NA '' = ''NA''"
    by (simp add: strip_def isspace_def)
  have s4: "strip ''https://hcraj.nic.in/x.html'' = ''https://hcraj.nic.in/x.html''"
    by (simp add: strip_def isspace_def)
  let ?P1 = "demo_portal [''222222''] [''222222''] [''222222''] ''/causelist/output/123.html
''"
  have i1: "initialize_session ?P1 0 = (0, Inr ())" by (rule demo_init)
  have v1: "solve_and_verify ?P1 0 = (Suc 0, [Fetched, Verify ''222222'' True], Inr True)"
    by (rule demo_solve_ok)
  have p1: "http_post_search ?P1 (Suc 0) (''ABC'', ''01/01/2026'', ''D'')
              = (Suc 0, Inr ''/causelist/output/123.html
'')"
    by (rule demo_post)
  have g1: "get_document ?P1 (Suc 0) ''https://hcraj.nic.in/cishcraj-jp/causelist/output/123.html''
     = (Suc 0, Inr ''<html>https://hcraj.nic.in/cishcraj-jp/causelist/output/123.html</html>'')"
    by (simp add: get_document_def has_http_scheme_def lower_def lower_char_def
        latin1_upper_def latin1_lower_def demo_get)
  from search_causelist_response[OF i1 v1 p1]
  have a: "search_causelist ?P1 ''ABC'' ''01/01/2026'' ''D'' 0
     = (Suc 0, Inr (Some ''<html>https://hcraj.nic.in/cishcraj-jp/causelist/output/123.html</html>''))"
    by (simp add: s1 g1 BASE_URL_def)
  let ?P4 = "demo_portal [''222222''] [''222222''] [''222222''] ''https://hcraj.nic.in/x.html''"
  have i4: "initialize_session ?P4 0 = (0, Inr ())" by (rule demo_init)
  have v4: "solve_and_verify ?P4 0 = (Suc 0, [Fetched, Verify ''222222'' True], Inr True)"
    by (rule demo_solve_ok)
  have p4: "http_post_search ?P4 (Suc 0) (''ABC'', ''01/01/2026'', ''D'')
              = (Suc 0, Inr ''https://hcraj.nic.in/x.html'')"
    by (rule demo_post)
  have g4: "get_document ?P4 (Suc 0) ''https://hcraj.nic.in/x.html''
     = (Suc 0, Inr ''<html>https://hcraj.nic.in/x.html</html>'')"
    by (simp add: get_document_def has_http_scheme_def lower_def lower_char_def
        latin1_upper_def latin1_lower_def demo_get)
  from search_causelist_response[OF i4 v4 p4]
  have d: "search_causelist ?P4 ''ABC'' ''01/01/2026'' ''D'' 0
     = (Suc 0, Inr (Some ''<html>https://hcraj.nic.in/x.html</html>''))"
    by (simp add: s4 g4)
  let ?P2 = "demo_portal [''222222''] [''222222''] [''222222''] '' NA ''"
  have i2: "initialize_session ?P2 0 = (0, Inr ())" by (rule demo_init)
  have v2: "solve_and_verify ?P2 0 = (Suc 0, [Fetched, Verify ''222222'' True], Inr True)"
    by (rule demo_solve_ok)
  have p2: "http_post_search ?P2 (Suc 0) (''ABC'', ''01/01/2026'', ''D'') = (Suc 0, Inr '' NA '')"
    by (rule demo_post)
  from search_causelist_response[OF i2 v2 p2]
  have b: "snd (search_causelist ?P2 ''ABC'' ''01/01/2026'' ''D'' 0) = Inr None"
    by (simp add: s2)
  let ?P3 = "demo_portal [''111111''] [''222222''] [] ''NA''"
  obtain evs where v3: "solve_and_verify ?P3 0 = (10, evs, Inr False)"
    using demo_solve_exhausted by blast
  have i3: "initialize_session ?P3 0 = (0, Inr ())" by (rule demo_init)
  have p3: "http_post_search ?P3 10 (''ABC'', ''01/01/2026'', ''D'') = (10, Inr ''NA'')"
    by (rule demo_post)
  from search_causelist_response[OF i3 v3 p3]
  have c: "search_causelist ?P3 ''ABC'' ''01/01/2026'' ''D'' 0
       = (10, Inl (RuntimeError ''Failed to solve captcha after maximum retries''))"
    by simp
  show ?thesis using a d b c by simp
qed

section \<open>Properties of the record parser\<close>

lemma extract_title_total: "extract_title L cell = Inr (title_of_parts (br_parts L cell))"
proof (cases "br_parts L cell")
  case Nil
  then show ?thesis by (simp add: extract_title_def title_of_parts_def)
next
  case (Cons p ps)
  then show ?thesis
    by (cases ps) (simp_all add: extract_title_def title_of_parts_def py_index_def)
qed

lemma data_row_char:
  assumes "3 \<le> length cells"
  shows "data_row L st cells (map (get_text_strip L) cells) full_text lower_text =
     (let sno = get_text_strip L (cells ! 0) in
      if sno = [] \<or> (\<not> isdigit (take 1 sno) \<and> \<not> contains ''with'' (lower sno)) then
        (if full_text \<noteq> [] \<and> \<not> any_in [''high court'', ''website'', ''='', ''---''] lower_text
         then Inr (st\<lparr>current_category := full_text\<rparr>)
         else Inr st)
      else Inr (st\<lparr>records := records st @ [entry_of_row L st cells]\<rparr>))"
proof -
  let ?sno = "get_text_strip L (cells ! 0)"
  have l: "0 < length cells" "1 < length cells" "2 < length cells"
    using assms by linarith+
  have i0: "py_index (map (get_text_strip L) cells) 0 = Inr ?sno"
    and i1: "py_index (map (get_text_strip L) cells) 1 = Inr (get_text_strip L (cells ! 1))"
    and i2: "py_index cells 2 = Inr (cells ! 2)"
    using l by (simp_all add: py_index_def)
  have t1: "?sno \<noteq> [] \<Longrightarrow> take (Suc 0) ?sno = [?sno ! 0]"
    by (cases ?sno) simp_all
  have s0: "?sno \<noteq> [] \<Longrightarrow> py_index ?sno 0 = Inr (?sno ! 0)"
    by (simp add: py_index_def)
  show ?thesis
  proof (cases "?sno = []")
    case True
    then show ?thesis
      unfolding data_row_def i0 Let_def by (simp split del: if_split)
  next
    case False
    note ne = False
    show ?thesis
      unfolding data_row_def i0 i1 i2 extract_title_total Let_def using ne
      by (simp add: s0 t1 bool.case_eq_if entry_of_row_def advocates_of_def
            br_to_separator_def split del: if_split cong: if_cong)
  qed
qed

lemma parse_row_char:
  "parse_row L st row =
     (let cells = find_all L row [''td'', ''th''];
          cell_texts = map (get_text_strip L) cells;
          full_text = row_text cell_texts;
          lower_text = lower full_text
      in
      if cell_texts = [] then Inr st
      else if full_text = [] \<or> (contains ''page'' lower_text \<and> contains ''of'' lower_text)
      then Inr st
      else if contains ''court no'' lower_text \<or> contains ''court room'' lower_text
      then Inr (st\<lparr>current_court := full_text, current_judge := [], current_category := []\<rparr>)
      else if contains (''hon'' @ [CHR 0x27] @ ''ble'') lower_text \<or> contains ''justice'' lower_text
      then Inr (st\<lparr>current_judge := join '' | '' (filter (\<lambda>t. t \<noteq> []) cell_texts)\<rparr>)
      else if any_in [''s.no'', ''sr.no'', ''case type'', ''name of advocate''] lower_text
      then Inr st
      else if length cell_texts \<le> 2 \<and> \<not> isdigit (take 1 (cell_texts ! 0)) then
        (if contains ''high court'' lower_text \<or> contains ''website'' lower_text
            \<or> contains ''causelist'' lower_text
         then Inr st
         else if contains ''webex'' lower_text
            \<or> contains ''cisco'' lower_text \<or> contains ''note:'' lower_text
         then Inr st
         else Inr (st\<lparr>current_category := full_text\<rparr>))
      else if length cell_texts \<le> 2 then Inr st
      else if cell_texts ! 0 = []
              \<or> (\<not> isdigit (take 1 (cell_texts ! 0)) \<and> \<not> contains ''with'' (lower (cell_texts ! 0)))
      then (if \<not> any_in [''high court'', ''website'', ''='', ''---''] lower_text
            then Inr (st\<lparr>current_category := full_text\<rparr>)
            else Inr st)
      else Inr (st\<lparr>records := records st @ [entry_of_row L st cells]\<rparr>))"
proof -
  define cells where "cells = find_all L row [''td'', ''th'']"
  define texts where "texts = map (get_text_strip L) cells"
  define ft where "ft = row_text texts"
  define lt where "lt = lower ft"
  have cat: "is_category_row texts ft
        = Inr (length texts \<le> 2 \<and> \<not> isdigit (take 1 (texts ! 0)))"
    if "texts \<noteq> []" "ft \<noteq> []"
    using that by (cases texts) (simp_all add: is_category_row_def py_index_def)
  have dr: "data_row L st cells texts ft lt =
      (if texts ! 0 = [] \<or> (\<not> isdigit (take 1 (texts ! 0)) \<and> \<not> contains ''with'' (lower (texts ! 0)))
       then (if \<not> any_in [''high court'', ''website'', ''='', ''---''] lt
             then Inr (st\<lparr>current_category := ft\<rparr>)
             else Inr st)
       else Inr (st\<lparr>records := records st @ [entry_of_row L st cells]\<rparr>))"
    if "\<not> length texts \<le> 2" "ft \<noteq> []"
  proof -
    from that(1) have l: "3 \<le> length cells" by (simp add: texts_def)
    then have n0: "texts ! 0 = get_text_strip L (cells ! 0)"
      unfolding texts_def by (cases cells) simp_all
    show ?thesis
      unfolding n0 using data_row_char[OF l, of L st ft lt] that(2)
      by (simp add: texts_def Let_def split del: if_split cong: if_cong)
  qed
  have ge3: "3 \<le> length texts" if "\<not> length texts \<le> 2" using that by simp
  show ?thesis
    unfolding parse_row_def Let_def row_text_def[symmetric]
      cells_def[symmetric] texts_def[symmetric] ft_def[symmetric] lt_def[symmetric]
    by (cases "texts = []"; cases "ft = []"; cases "length texts \<le> 2")
       (simp_all add: cat dr ge3 bool.case_eq_if split del: if_split cong: if_cong)
qed

lemma parse_row_total:
  "\<exists>st'. parse_row L st row = Inr st'
         \<and> (records st' = records st \<or> (\<exists>e. records st' = records st @ [e]))"
  unfolding parse_row_char Let_def by simp

lemma parse_rows_append:
  "parse_rows L st (rows1 @ rows2) =
     (case parse_rows L st rows1 of Inl e \<Rightarrow> Inl e | Inr st1 \<Rightarrow> parse_rows L st1 rows2)"
  by (induction rows1 arbitrary: st) (simp_all split: sum.splits)

lemma parse_rows_total: "\<exists>st'. parse_rows L st rows = Inr st'"
proof (induction rows arbitrary: st)
  case Nil
  then show ?case by simp
next
  case (Cons row rows)
  from parse_row_total[of L st row] obtain st1 where "parse_row L st row = Inr st1" by blast
  with Cons.IH[of st1] show ?case by simp
qed

lemma parse_tables_total: "\<exists>st'. parse_tables L st tables = Inr st'"
proof (induction tables arbitrary: st)
  case Nil
  then show ?case by simp
next
  case (Cons table tables)
  from parse_rows_total[of L st "find_all L table [''tr'']"] obtain st1 where
    "parse_rows L st (find_all L table [''tr'']) = Inr st1" by blast
  with Cons.IH[of st1] show ?case by simp
qed

text \<open>
  C7 (as amended). For every input on which the library's HTML parser returns a tree,
  \<open>parse_to_records\<close> returns a list of records and raises nothing; an error raised by
  the parser leaves \<open>parse_to_records\<close> as it is. Every row is processed without an
  error and either leaves the records as they are or appends one entry; and whatever a
  row is, the rows after it are processed, from the state that row left.
\<close>
theorem parse_to_records_total:
  "(\<forall>soup. BeautifulSoup L html_content = Inr soup \<longrightarrow>
       (\<exists>recs. parse_to_records L html_content = Inr recs))
   \<and> (\<forall>e. BeautifulSoup L html_content = Inl e \<longrightarrow> parse_to_records L html_content = Inl e)
   \<and> (\<exists>st'. parse_row L st row = Inr st'
          \<and> (records st' = records st \<or> (\<exists>e. records st' = records st @ [e])))
   \<and> (\<exists>st1 st2 st3. parse_rows L st rows1 = Inr st1 \<and> parse_row L st1 row = Inr st2
          \<and> parse_rows L st2 rows2 = Inr st3
          \<and> parse_rows L st (rows1 @ row # rows2) = Inr st3)"
proof -
  have A: "\<exists>recs. parse_to_records L html_content = Inr recs"
    if "BeautifulSoup L html_content = Inr soup" for soup
  proof -
    obtain st0 where "parse_tables L initial_state (find_all L soup [''table'']) = Inr st0"
      using parse_tables_total[of L initial_state "find_all L soup [''table'']"] by blast
    with that show ?thesis by (simp add: parse_to_records_def)
  qed
  have B: "parse_to_records L html_content = Inl e"
    if "BeautifulSoup L html_content = Inl e" for e
    using that by (simp add: parse_to_records_def)
  obtain st1 where s1: "parse_rows L st rows1 = Inr st1"
    using parse_rows_total[of L st rows1] by blast
  obtain st2 where s2: "parse_row L st1 row = Inr st2"
    using parse_row_total[of L st1 row] by blast
  obtain st3 where s3: "parse_rows L st2 rows2 = Inr st3"
    using parse_rows_total[of L st2 rows2] by blast
  have "parse_rows L st (rows1 @ row # rows2) = Inr st3"
    by (simp add: parse_rows_append s1 s2 s3)
  with s1 s2 s3 have C: "\<exists>st1 st2 st3. parse_rows L st rows1 = Inr st1 \<and> parse_row L st1 row = Inr st2
          \<and> parse_rows L st2 rows2 = Inr st3
          \<and> parse_rows L st (rows1 @ row # rows2) = Inr st3" by blast
  show ?thesis using A B parse_row_total[of L st row] C by blast
qed

lemma parse_row_new_record:
  assumes "parse_row L st row = Inr st'" and "records st' \<noteq> records st"
  shows "3 \<le> length (find_all L row [''td'', ''th''])
       \<and> get_text_strip L (find_all L row [''td'', ''th''] ! 0) \<noteq> []
       \<and> (isdigit (take 1 (get_text_strip L (find_all L row [''td'', ''th''] ! 0)))
            \<or> contains ''with'' (lower (get_text_strip L (find_all L row [''td'', ''th''] ! 0))))
       \<and> st' = st\<lparr>records := records st @ [entry_of_row L st (find_all L row [''td'', ''th''])]\<rparr>"
proof -
  define cells where "cells = find_all L row [''td'', ''th'']"
  have n0: "\<not> length cells \<le> 2 \<Longrightarrow> map (get_text_strip L) cells ! 0 = get_text_strip L (cells ! 0)"
    by (cases cells) simp_all
  from assms show ?thesis
    unfolding parse_row_char Let_def cells_def[symmetric]
    by (auto simp: n0 split: if_splits)
qed

text \<open>
  C5 (as amended). A row for which the parser produces an entry has at least three cells
  and a first cell that starts with a digit or contains \<open>with\<close> in any letter case. The
  entry's \<open>serial_no\<close> is the first cell's text after one pass of Python's \<open>replace\<close>
  deleting \<open>With\<close>, then stripped; \<open>case_type_no\<close> is the second cell's text; \<open>title\<close>
  is the single line-break part of the third cell, or the first part, \<open>Vs\<close> and the other
  parts joined by spaces; \<open>advocates\<close> joins the non-empty remaining cells with \<open>|\<close>,
  each cell's parts joined by commas; court, judge and category are the current ones.
\<close>
theorem case_row_entry:
  assumes "parse_row L st row = Inr st'" and "records st' \<noteq> records st"
      and "cells = find_all L row [''td'', ''th'']"
      and "cell_texts = map (get_text_strip L) cells"
  shows "3 \<le> length cells
       \<and> (isdigit (take 1 (cell_texts ! 0)) \<or> contains ''with'' (lower (cell_texts ! 0)))
       \<and> records st' = records st @
           [\<lparr> serial_no = strip (replace ''With'' [] (cell_texts ! 0)),
              case_type_no = cell_texts ! 1,
              title = (case br_parts L (cells ! 2) of
                         [] \<Rightarrow> []
                       | [part0] \<Rightarrow> part0
                       | part0 # part1 # parts \<Rightarrow>
                           part0 @ '' Vs '' @ join '' '' (part1 # parts)),
              advocates =
                join '' | ''
                  (filter (\<lambda>part. part \<noteq> [])
                     (map (\<lambda>c. join '', '' (br_parts L c)) (drop 3 cells))),
              court_no = current_court st,
              judge_name = current_judge st,
              category = current_category st \<rparr>]"
proof -
  note n = parse_row_new_record[OF assms(1,2), folded assms(3)]
  then have l: "0 < length cells" "1 < length cells" by linarith+
  have t0: "cell_texts ! 0 = get_text_strip L (cells ! 0)"
    and t1: "cell_texts ! 1 = get_text_strip L (cells ! 1)"
    using l by (simp_all add: assms(4))
  show ?thesis
    using n unfolding t0 t1
    by (simp add: entry_of_row_def title_of_parts_def)
qed

text \<open>
  C8 (as amended). For a row that rules 1 to 4 leave alone: when it has at least three
  cells, its first cell is empty or neither starts with a digit nor contains \<open>with\<close>, and
  its text contains none of \<open>high court\<close>, \<open>website\<close>, \<open>=\<close>, \<open>---\<close>, the parser sets
  the current category to the row's text and changes nothing else; when it has at most two
  cells and its first cell starts with a digit, the parser changes nothing.
\<close>
theorem fallback_category_rows:
  assumes "cell_texts = map (get_text_strip L) (find_all L row [''td'', ''th''])"
      and "\<not> rules_1_to_4 cell_texts"
  shows "(3 \<le> length cell_texts
          \<and> (cell_texts ! 0 = []
              \<or> (\<not> isdigit (take 1 (cell_texts ! 0)) \<and> \<not> contains ''with'' (lower (cell_texts ! 0))))
          \<and> \<not> any_in [''high court'', ''website'', ''='', ''---''] (lower (row_text cell_texts))
          \<longrightarrow> parse_row L st row = Inr (st\<lparr>current_category := row_text cell_texts\<rparr>))
       \<and> (length cell_texts \<le> 2 \<and> isdigit (take 1 (cell_texts ! 0))
          \<longrightarrow> parse_row L st row = Inr st)"
  using assms(2)
  unfolding parse_row_char Let_def assms(1)[symmetric] rules_1_to_4_def
  by auto

section \<open>Concrete runs of the parser\<close>

lemmas eval_defs =
  parse_row_def Let_def demo_bs4_def tree_bs4_def tree_find_all_def tree_get_text_strip_def
  tree_get_text_def child_text_def strip_def isspace_def
  lower_def lower_char_def latin1_upper_def latin1_lower_def
  is_category_row_def py_index_def data_row_def extract_title_def
  br_parts_def advocates_of_def br_to_separator_def any_in_def isdigit_def isdigit_char_def
  tr_row_def td_cell_def text_node_def br_tag_def admission_state_def initial_state_def

lemma case_row_cells:
  "map (get_text_strip demo_bs4) (find_all demo_bs4 case_row [''td'', ''th''])
     = [''With 1a'', ''CRLMP/123'', ''FooBarBaz'', ''ADV AADV B'', [], ''ADV C'']"
  by (simp add: case_row_def eval_defs)

lemma case_row_eval:
  "parse_row demo_bs4 admission_state case_row =
     Inr (admission_state\<lparr>records :=
       [\<lparr> serial_no = ''1a'', case_type_no = ''CRLMP/123'', title = ''Foo Vs Bar Baz'',
          advocates = ''ADV A, ADV B | ADV C'', court_no = ''Court No : 2'',
          judge_name = ''J'', category = ''FOR ADMISSION'' \<rparr>]\<rparr>)"
  by (simp add: case_row_def eval_defs replace.simps)

lemma with_row_eval:
  "parse_row demo_bs4 admission_state with_row =
     Inr (admission_state\<lparr>records :=
       [\<lparr> serial_no = ''With 3'', case_type_no = ''CW/10'', title = [],
          advocates = [], court_no = ''Court No : 2'',
          judge_name = ''J'', category = ''FOR ADMISSION'' \<rparr>]\<rparr>)"
  by (simp add: with_row_def eval_defs replace.simps)

lemma short_digit_row_eval:
  "parse_row demo_bs4 admission_state short_digit_row = Inr admission_state"
  by (simp add: short_digit_row_def eval_defs)

lemma misc_row_eval:
  "parse_row demo_bs4 admission_state misc_row
     = Inr (admission_state\<lparr>current_category := ''ORDERS MATTERS''\<rparr>)"
  by (simp add: misc_row_def eval_defs)

lemma plain_eval:
  "parse_to_records demo_bs4 plain_markup =
     Inr [\<lparr> serial_no = ''1'', case_type_no = ''CW/7'', title = ''Early'',
            advocates = ''ADV E'', court_no = [], judge_name = [], category = [] \<rparr>]"
  by (simp add: parse_to_records_def html_parser_def plain_markup_def marked_section_markup_def
      plain_row_def eval_defs replace.simps)

lemma rows_eval:
  "parse_rows demo_bs4 admission_state [case_row, short_digit_row, misc_row] =
     Inr (admission_state\<lparr>records :=
       [\<lparr> serial_no = ''1a'', case_type_no = ''CRLMP/123'', title = ''Foo Vs Bar Baz'',
          advocates = ''ADV A, ADV B | ADV C'', court_no = ''Court No : 2'',
          judge_name = ''J'', category = ''FOR ADMISSION'' \<rparr>],
       current_category := ''ORDERS MATTERS''\<rparr>)"
proof -
  have m: "parse_row demo_bs4 (admission_state\<lparr>records := rs\<rparr>) misc_row
     = Inr (admission_state\<lparr>records := rs, current_category := ''ORDERS MATTERS''\<rparr>)" for rs
    by (simp add: misc_row_def eval_defs)
  have d: "parse_row demo_bs4 (admission_state\<lparr>records := rs\<rparr>) short_digit_row
     = Inr (admission_state\<lparr>records := rs\<rparr>)" for rs
    by (simp add: short_digit_row_def eval_defs)
  show ?thesis by (simp add: case_row_eval d m)
qed

lemma plain_soup:
  "BeautifulSoup demo_bs4 plain_markup = Inr (Tag ''[document]'' [Tag ''table'' [plain_row]])"
  by (simp add: demo_bs4_def tree_bs4_def html_parser_def plain_markup_def
      marked_section_markup_def)

theorem parse_to_records_total_witness:
  "BeautifulSoup demo_bs4 plain_markup = Inr (Tag ''[document]'' [Tag ''table'' [plain_row]])
   \<and> parse_to_records demo_bs4 plain_markup =
     Inr [\<lparr> serial_no = ''1'', case_type_no = ''CW/7'', title = ''Early'',
            advocates = ''ADV E'', court_no = [], judge_name = [], category = [] \<rparr>]
   \<and> parse_row demo_bs4 admission_state short_digit_row = Inr admission_state
   \<and> parse_rows demo_bs4 admission_state ([case_row] @ short_digit_row # [misc_row]) =
     Inr (admission_state\<lparr>records :=
       [\<lparr> serial_no = ''1a'', case_type_no = ''CRLMP/123'', title = ''Foo Vs Bar Baz'',
          advocates = ''ADV A, ADV B | ADV C'', court_no = ''Court No : 2'',
          judge_name = ''J'', category = ''FOR ADMISSION'' \<rparr>],
       current_category := ''ORDERS MATTERS''\<rparr>)"
proof -
  have r: "parse_rows demo_bs4 admission_state ([case_row] @ short_digit_row # [misc_row]) =
     Inr (admission_state\<lparr>records :=
       [\<lparr> serial_no = ''1a'', case_type_no = ''CRLMP/123'', title = ''Foo Vs Bar Baz'',
          advocates = ''ADV A, ADV B | ADV C'', court_no = ''Court No : 2'',
          judge_name = ''J'', category = ''FOR ADMISSION'' \<rparr>],
       current_category := ''ORDERS MATTERS''\<rparr>)"
    unfolding append_Cons append_Nil by (rule rows_eval)
  from parse_to_records_total
    [of demo_bs4 plain_markup admission_state short_digit_row "[case_row]" "[misc_row]"]
  show ?thesis
    unfolding plain_soup plain_eval short_digit_row_eval r by simp
qed

text \<open>
  C7 as stated fails: the library's parser refuses the marked section \<open><![x[y]]>\<close>, the
  constructor raises \<open>ParserRejectedMarkup\<close>, and the error leaves \<open>parse_to_records\<close>.
\<close>

theorem parser_rejected_markup_counterexample:
  "BeautifulSoup demo_bs4 ''<![x[y]]>'' = Inl ParserRejectedMarkup
   \<and> parse_to_records demo_bs4 ''<![x[y]]>'' = Inl ParserRejectedMarkup
   \<and> \<not> (\<exists>recs. parse_to_records demo_bs4 ''<![x[y]]>'' = Inr recs)"
  by (simp add: parse_to_records_def demo_bs4_def tree_bs4_def html_parser_def
      marked_section_markup_def)

text \<open>
  C5 as stated fails: deleting \<open>With\<close> from the cell \<open>WiWithth 3\<close> joins the pieces
  around it, and the serial number is \<open>With 3\<close>.
\<close>

theorem serial_no_with_counterexample:
  "parse_row demo_bs4 admission_state with_row =
     Inr (admission_state\<lparr>records :=
       [\<lparr> serial_no = ''With 3'', case_type_no = ''CW/10'', title = [],
          advocates = [], court_no = ''Court No : 2'',
          judge_name = ''J'', category = ''FOR ADMISSION'' \<rparr>]\<rparr>)
   \<and> contains ''With'' ''With 3''"
  by (simp add: with_row_eval)

theorem case_row_entry_witness:
  "parse_row demo_bs4 admission_state case_row =
     Inr (admission_state\<lparr>records :=
       [\<lparr> serial_no = ''1a'', case_type_no = ''CRLMP/123'', title = ''Foo Vs Bar Baz'',
          advocates = ''ADV A, ADV B | ADV C'', court_no = ''Court No : 2'',
          judge_name = ''J'', category = ''FOR ADMISSION'' \<rparr>]\<rparr>)
   \<and> 3 \<le> length (find_all demo_bs4 case_row [''td'', ''th''])
   \<and> contains ''with'' (lower ''With 1a'')
   \<and> strip (replace ''With'' [] ''With 1a'') = ''1a''"
proof -
  let ?st' = "admission_state\<lparr>records :=
       [\<lparr> serial_no = ''1a'', case_type_no = ''CRLMP/123'', title = ''Foo Vs Bar Baz'',
          advocates = ''ADV A, ADV B | ADV C'', court_no = ''Court No : 2'',
          judge_name = ''J'', category = ''FOR ADMISSION'' \<rparr>]\<rparr>"
  have ne: "records ?st' \<noteq> records admission_state"
    by (simp add: admission_state_def)
  from case_row_entry[OF case_row_eval ne refl refl]
  have "3 \<le> length (find_all demo_bs4 case_row [''td'', ''th''])
      \<and> (isdigit (take 1 ''With 1a'') \<or> contains ''with'' (lower ''With 1a''))
      \<and> strip (replace ''With'' [] ''With 1a'') = ''1a''"
    by (simp add: case_row_cells admission_state_def)
  moreover have "\<not> isdigit (take 1 ''With 1a'')"
    by (simp add: isdigit_def isdigit_char_def)
  ultimately show ?thesis using case_row_eval by simp
qed

text \<open>
  C8 as stated fails: the one-cell row \<open>2 PM\<close> matches none of the rules 1 to 6, is not
  blank and contains no skip keyword, and the parser leaves the current category as it is.
\<close>

theorem short_digit_row_counterexample:
  "map (get_text_strip demo_bs4) (find_all demo_bs4 short_digit_row [''td'', ''th'']) = [''2 PM'']
   \<and> \<not> rules_1_to_4 [''2 PM''] \<and> \<not> rule_5 [''2 PM''] \<and> \<not> rule_6 [''2 PM'']
   \<and> row_text [''2 PM''] = ''2 PM''
   \<and> \<not> any_in skip_keywords (lower (row_text [''2 PM'']))
   \<and> parse_row demo_bs4 admission_state short_digit_row = Inr admission_state
   \<and> current_category admission_state = ''FOR ADMISSION''"
  by (simp add: short_digit_row_eval)
     (simp add: short_digit_row_def rules_1_to_4_def rule_5_def rule_6_def row_text_def
        skip_keywords_def eval_defs)

theorem fallback_category_rows_witness:
  "\<not> rules_1_to_4 [[], ''ORDERS'', ''MATTERS'']
   \<and> parse_row demo_bs4 admission_state misc_row
       = Inr (admission_state\<lparr>current_category := ''ORDERS MATTERS''\<rparr>)
   \<and> \<not> rules_1_to_4 [''2 PM'']
   \<and> parse_row demo_bs4 admission_state short_digit_row = Inr admission_state"
proof -
  have c1: "[[], ''ORDERS'', ''MATTERS''] = map (get_text_strip demo_bs4) (find_all demo_bs4 misc_row [''td'', ''th''])"
    by (simp add: misc_row_def eval_defs)
  have r1: "\<not> rules_1_to_4 [[], ''ORDERS'', ''MATTERS'']"
    by (simp add: rules_1_to_4_def row_text_def eval_defs)
  have t1: "row_text [[], ''ORDERS'', ''MATTERS''] = ''ORDERS MATTERS''"
    by (simp add: row_text_def eval_defs)
  have k1: "\<not> any_in [''high court'', ''website'', ''='', ''---''] (lower ''ORDERS MATTERS'')"
    by (simp add: eval_defs)
  from fallback_category_rows[OF c1 r1, of admission_state]
  have a: "parse_row demo_bs4 admission_state misc_row
       = Inr (admission_state\<lparr>current_category := ''ORDERS MATTERS''\<rparr>)"
    by (simp add: t1 k1)
  have c2: "[''2 PM''] = map (get_text_strip demo_bs4) (find_all demo_bs4 short_digit_row [''td'', ''th''])"
    by (simp add: short_digit_row_def eval_defs)
  have r2: "\<not> rules_1_to_4 [''2 PM'']"
    by (simp add: rules_1_to_4_def row_text_def eval_defs)
  from fallback_category_rows[OF c2 r2, of admission_state]
  have b: "parse_row demo_bs4 admission_state short_digit_row = Inr admission_state"
    by (simp add: isdigit_def isdigit_char_def)
  show ?thesis using a b r1 r2 by simp
qed

lemma entry_lands_dict:
  assumes "e \<in> set rs"
  shows "\<exists>s es. (group_key e, s) \<in> set (group_sections rs)
           \<and> (category_key e, es) \<in> set (categories s) \<and> e \<in> set es"
proof -
  let ?k = "group_key e"
  let ?g = "filter (\<lambda>x. group_key x = ?k) rs"
  let ?es = "filter (\<lambda>x. category_key x = category_key e) ?g"
  have "?k \<in> set (map group_key rs)" using assms by simp
  then have "?k \<in> set (first_occ (map group_key rs))"
    using set_first_occ[of "map group_key rs"] by blast
  then have in_g: "(?k, section_of rs ?k) \<in> set (group_sections rs)"
    unfolding group_sections_char by (simp add: image_iff)
  have eg: "e \<in> set ?g" using assms by simp
  then have "category_key e \<in> set (first_occ (map category_key ?g))"
    unfolding set_first_occ by (simp del: set_filter)
  then have "(category_key e, ?es) \<in> set (categories (section_of rs ?k))"
    by (simp add: section_of_def Let_def image_iff del: set_filter)
  moreover have "e \<in> set ?es" using eg by simp
  ultimately show ?thesis using in_g by blast
qed

text \<open>
  C9 as stated fails: an entry parsed while no category is active has the empty string as
  its category, not \<open>General\<close>.
\<close>

theorem category_field_counterexample:
  "parse_to_records demo_bs4 plain_markup =
     Inr [\<lparr> serial_no = ''1'', case_type_no = ''CW/7'', title = ''Early'',
            advocates = ''ADV E'', court_no = [], judge_name = [], category = [] \<rparr>]
   \<and> category \<lparr> serial_no = ''1'', case_type_no = ''CW/7'', title = ''Early'',
            advocates = ''ADV E'', court_no = [], judge_name = [], category = [] \<rparr>
       \<noteq> ''General''"
  by (simp add: plain_eval)

text \<open>
  C9 (as amended). An entry produced while the current category is empty has the empty
  string as its category field. \<open>group_by_court\<close> files every entry with an empty
  category under the category name \<open>General\<close> of the section of its key, and every entry
  with an empty \<open>court_no\<close> in the section keyed \<open>Unknown\<close>.
\<close>

theorem category_default_in_grouping:
  "(parse_row L st row = Inr st' \<and> records st' \<noteq> records st \<and> current_category st = []
      \<longrightarrow> (\<exists>e. records st' = records st @ [e] \<and> category e = []))
   \<and> (\<forall>e\<in>set rs. category e = [] \<longrightarrow>
         (\<exists>s es. (group_key e, s) \<in> set (group_sections rs)
            \<and> (''General'', es) \<in> set (categories s) \<and> e \<in> set es))
   \<and> (\<forall>e\<in>set rs. CaseEntry.court_no e = [] \<longrightarrow>
         (\<exists>s es. (''Unknown'', s) \<in> set (group_sections rs)
            \<and> (category_key e, es) \<in> set (categories s) \<and> e \<in> set es))"
proof -
  have A: "parse_row L st row = Inr st' \<and> records st' \<noteq> records st \<and> current_category st = []
      \<longrightarrow> (\<exists>e. records st' = records st @ [e] \<and> category e = [])"
  proof
    assume h: "parse_row L st row = Inr st' \<and> records st' \<noteq> records st \<and> current_category st = []"
    then have "st' = st\<lparr>records := records st @ [entry_of_row L st (find_all L row [''td'', ''th''])]\<rparr>"
      using parse_row_new_record[of L st row st'] by blast
    then have "records st' = records st @ [entry_of_row L st (find_all L row [''td'', ''th''])]
        \<and> category (entry_of_row L st (find_all L row [''td'', ''th''])) = []"
      using h by (simp add: entry_of_row_def)
    then show "\<exists>e. records st' = records st @ [e] \<and> category e = []" by blast
  qed
  have B: "\<forall>e\<in>set rs. category e = [] \<longrightarrow>
         (\<exists>s es. (group_key e, s) \<in> set (group_sections rs)
            \<and> (''General'', es) \<in> set (categories s) \<and> e \<in> set es)"
  proof (intro ballI impI)
    fix e assume "e \<in> set rs" "category e = []"
    then show "\<exists>s es. (group_key e, s) \<in> set (group_sections rs)
            \<and> (''General'', es) \<in> set (categories s) \<and> e \<in> set es"
      using entry_lands_dict[of e rs] by (simp add: category_key_def)
  qed
  have C: "\<forall>e\<in>set rs. CaseEntry.court_no e = [] \<longrightarrow>
         (\<exists>s es. (''Unknown'', s) \<in> set (group_sections rs)
            \<and> (category_key e, es) \<in> set (categories s) \<and> e \<in> set es)"
  proof (intro ballI impI)
    fix e assume "e \<in> set rs" "CaseEntry.court_no e = []"
    then show "\<exists>s es. (''Unknown'', s) \<in> set (group_sections rs)
            \<and> (category_key e, es) \<in> set (categories s) \<and> e \<in> set es"
      using entry_lands_dict[of e rs] by (simp add: group_key_def)
  qed
  show ?thesis using A B C by blast
qed

lemma plain_row_eval:
  "parse_row demo_bs4 initial_state plain_row =
     Inr (initial_state\<lparr>records :=
       [\<lparr> serial_no = ''1'', case_type_no = ''CW/7'', title = ''Early'',
          advocates = ''ADV E'', court_no = [], judge_name = [], category = [] \<rparr>]\<rparr>)"
  by (simp add: plain_row_def eval_defs replace.simps)

lemma demo_sections:
  "group_sections demo_records =
     [(''Unknown'',
       \<lparr> court_no = [], judge_name = ''J1'',
         categories = [(''ADM'', [mk_entry ''1'' [] ''J1'' ''ADM'', mk_entry ''5'' [] ''J5'' ''ADM'']),
                       (''General'', [mk_entry ''3'' [] ''J3'' []])] \<rparr>),
      (''Court No : 2'',
       \<lparr> court_no = ''Court No : 2'', judge_name = ''J2'',
         categories = [(''General'', [mk_entry ''2'' ''Court No : 2'' ''J2'' []]),
                       (''ADM'', [mk_entry ''4'' ''Court No : 2'' ''J4'' ''ADM''])] \<rparr>)]"
  by (simp add: group_sections_def group_step_def od_update_def
      demo_records_def mk_entry_def group_key_def category_key_def Let_def)

theorem category_default_in_grouping_witness:
  "parse_row demo_bs4 initial_state plain_row =
     Inr (initial_state\<lparr>records :=
       [\<lparr> serial_no = ''1'', case_type_no = ''CW/7'', title = ''Early'',
          advocates = ''ADV E'', court_no = [], judge_name = [], category = [] \<rparr>]\<rparr>)
   \<and> current_category initial_state = []
   \<and> mk_entry ''3'' [] ''J3'' [] \<in> set demo_records
   \<and> (\<exists>s es. (''Unknown'', s) \<in> set (group_sections demo_records)
          \<and> (''General'', es) \<in> set (categories s) \<and> mk_entry ''3'' [] ''J3'' [] \<in> set es)"
proof -
  have m: "mk_entry ''3'' [] ''J3'' [] \<in> set demo_records"
    by (simp add: demo_records_def)
  have c: "category (mk_entry ''3'' [] ''J3'' []) = []"
    "CaseEntry.court_no (mk_entry ''3'' [] ''J3'' []) = []"
    by (simp_all add: mk_entry_def)
  have k: "group_key (mk_entry ''3'' [] ''J3'' []) = ''Unknown''"
    by (simp add: group_key_def mk_entry_def)
  from category_default_in_grouping[of demo_bs4 initial_state plain_row _ demo_records] m c
  have "\<exists>s es. (group_key (mk_entry ''3'' [] ''J3'' []), s) \<in> set (group_sections demo_records)
          \<and> (''General'', es) \<in> set (categories s) \<and> mk_entry ''3'' [] ''J3'' [] \<in> set es"
    by blast
  then show ?thesis
    unfolding k using plain_row_eval m by (simp add: initial_state_def)
qed

end

